theory Spec2Isabelle
  imports Complex_Main
begin

section \<open>Python values\<close>

text \<open>
  A Python \<open>str\<close> is a sequence of Unicode code points, and \<open>len\<close> counts code points,
  so a string is a list of code-point numbers. Floating-point scores are taken as exact
  reals: rounding is not modelled.
\<close>

type_synonym pychar = nat
type_synonym pystr = "pychar list"

datatype py_error = ValueError | IndexError | ZeroDivisionError | PowerIterationFailedConvergence

definition ascii :: "string \<Rightarrow> pystr" where
  "ascii s = map of_char s"

text \<open>Python's slice \<open>xs[i:j]\<close> for any two integers: a negative bound counts from the end,
  and both bounds are clamped to the sequence.\<close>

definition py_slice :: "'a list \<Rightarrow> int \<Rightarrow> int \<Rightarrow> 'a list" where
  "py_slice xs i j =
     (let n = int (length xs);
          lo = (if i < 0 then max 0 (i + n) else min i n);
          hi = (if j < 0 then max 0 (j + n) else min j n)
      in take (nat (hi - lo)) (drop (nat lo) xs))"

text \<open>\<open>sep.join(parts)\<close>.\<close>

fun py_join :: "'a list \<Rightarrow> 'a list list \<Rightarrow> 'a list" where
  "py_join sep [] = []"
| "py_join sep [x] = x"
| "py_join sep (x # y # ys) = x @ sep @ py_join sep (y # ys)"

text \<open>The list comprehension \<open>[xs[i] for i in idx]\<close> over non-negative indices: an index
  past the end raises \<open>IndexError\<close>.\<close>

definition py_getitems :: "'a list \<Rightarrow> nat list \<Rightarrow> py_error + 'a list" where
  "py_getitems xs idx =
     (if list_all (\<lambda>i. i < length xs) idx then Inr (map (\<lambda>i. xs ! i) idx)
      else Inl IndexError)"

section \<open>preprocessing/text\_cleaning.py\<close>

text \<open>The character class \<open>[\x00-\x08\x0b\x0c\x0e-\x1f\x7f]\<close> of \<open>basic_clean\<close>.\<close>

definition is_ctrl :: "pychar \<Rightarrow> bool" where
  "is_ctrl c \<longleftrightarrow> c \<le> 8 \<or> c = 11 \<or> c = 12 \<or> (14 \<le> c \<and> c \<le> 31) \<or> c = 127"

text \<open>
  Whitespace as \<open>\s\<close> matches it in a \<open>str\<close> pattern and as \<open>str.strip\<close> and
  \<open>str.isspace\<close> see it: tab to carriage return, the separators 0x1C to 0x1F, space,
  NEL, no-break space and the Unicode space separators.
\<close>

definition is_space :: "pychar \<Rightarrow> bool" where
  "is_space c \<longleftrightarrow>
     (9 \<le> c \<and> c \<le> 13) \<or> (28 \<le> c \<and> c \<le> 32) \<or> c = 133 \<or> c = 160 \<or> c = 5760 \<or>
     (8192 \<le> c \<and> c \<le> 8202) \<or> c = 8232 \<or> c = 8233 \<or> c = 8239 \<or> c = 8287 \<or> c = 12288"

text \<open>\<open>re.sub(r"\s+", " ", text)\<close>: every maximal run of whitespace becomes one space.\<close>

function sub_ws_runs :: "pystr \<Rightarrow> pystr" where
  "sub_ws_runs [] = []"
| "sub_ws_runs (c # cs) =
     (if is_space c then 32 # sub_ws_runs (dropWhile is_space cs) else c # sub_ws_runs cs)"
  by pat_completeness auto
termination
  by (relation "measure length") (auto simp: less_Suc_eq_le length_dropWhile_le)

text \<open>\<open>text.strip()\<close>.\<close>

definition py_strip :: "pystr \<Rightarrow> pystr" where
  "py_strip s = rev (dropWhile is_space (rev (dropWhile is_space s)))"

definition normalize_whitespace :: "pystr \<Rightarrow> pystr" where
  "normalize_whitespace text = py_strip (sub_ws_runs text)"

definition basic_clean :: "pystr \<Rightarrow> pystr" where
  "basic_clean text = normalize_whitespace (map (\<lambda>c. if is_ctrl c then 32 else c) text)"

text \<open>\<open>s.isspace()\<close>: at least one character, all of them whitespace.\<close>

definition py_isspace :: "pystr \<Rightarrow> bool" where
  "py_isspace s \<longleftrightarrow> s \<noteq> [] \<and> list_all is_space s"

text \<open>\<open>sentence_split\<close>; the Punkt tokenizer \<open>sent_tokenize\<close> of NLTK is a parameter.\<close>

definition sentence_split :: "(pystr \<Rightarrow> pystr list) \<Rightarrow> pystr \<Rightarrow> pystr list" where
  "sentence_split sent_tokenize text =
     map py_strip (filter (\<lambda>s. s \<noteq> [] \<and> \<not> py_isspace s) (sent_tokenize text))"

text \<open>
  The normalizer as the design document words it: the text is cut at every control
  character and every whitespace character, and the pieces that remain are joined with
  one space. \<open>words_of\<close> lists the maximal runs of characters that are neither.
\<close>

definition is_sep :: "pychar \<Rightarrow> bool" where
  "is_sep c \<longleftrightarrow> is_ctrl c \<or> is_space c"

function words_of :: "pystr \<Rightarrow> pystr list" where
  "words_of [] = []"
| "words_of (c # cs) =
     (if is_sep c then words_of cs
      else (c # takeWhile (\<lambda>d. \<not> is_sep d) cs) # words_of (dropWhile (\<lambda>d. \<not> is_sep d) cs))"
  by pat_completeness auto
termination
  by (relation "measure length") (auto simp: less_Suc_eq_le length_dropWhile_le)

definition normalize_spec :: "pystr \<Rightarrow> pystr" where
  "normalize_spec raw = py_join [32] (words_of raw)"

section \<open>summarizers/extractive.py\<close>

record ExtractiveSummaryResult =
  summary :: pystr
  selected_sentences :: "pystr list"
  indices :: "nat list"
  scores :: "real list"

text \<open>
  The libraries the module calls are parameters:
  \<^item> \<open>sent_tokenize\<close>: NLTK's sentence tokenizer;
  \<^item> \<open>encode\<close>: \<open>SentenceTransformer.encode\<close> of the cached model, one vector per sentence;
  \<^item> \<open>cos_sim\<close>: \<open>util.cos_sim(embeddings, doc_centroid)\<close> squeezed to one score per row
    (a single score is re-wrapped into an array of one, lines 61 and 62);
  \<^item> \<open>argsort\<close>: \<open>np.argsort\<close> with its default \<open>kind\<close>;
  \<^item> \<open>pagerank\<close>: \<open>nx.pagerank(nx.from_numpy_array(M), max_iter=100, tol=1.0e-6)\<close>, the
    scores listed by node 0, 1, ...; it raises when the power iteration does not converge.
\<close>

record libs =
  sent_tokenize :: "pystr \<Rightarrow> pystr list"
  encode :: "pystr list \<Rightarrow> real list list"
  cos_sim :: "real list list \<Rightarrow> real list \<Rightarrow> real list"
  argsort :: "real list \<Rightarrow> nat list"
  pagerank :: "real list list \<Rightarrow> py_error + real list"


definition dot :: "real list \<Rightarrow> real list \<Rightarrow> real" where
  "dot u v = sum_list (map2 (*) u v)"

subsection \<open>The float32 arithmetic of numpy\<close>

text \<open>
  The encoder returns float32 tensors, and numpy keeps that type through
  \<open>_build_similarity_matrix\<close>: every elementwise operation returns the IEEE binary32 number
  nearest to the exact result, ties to the even significand. A float32 is modelled as the
  real number it stands for. \<open>f32 x\<close> rounds \<open>x\<close> to a 24 bit significand at the exponent
  of \<open>x\<close>, and to multiples of \<open>pow2 (- 149)\<close> below the smallest normal number; overflow to
  infinity is outside the model, which stands for embeddings whose squared norm is in the
  float32 range.
\<close>

definition round_even :: "real \<Rightarrow> int" where
  "round_even x =
     (let f = \<lfloor>x\<rfloor>; r = x - of_int f
      in if r < 1 / 2 then f else if 1 / 2 < r then f + 1 else if even f then f else f + 1)"

definition pow2 :: "int \<Rightarrow> real" where
  "pow2 e = (if 0 \<le> e then 2 ^ nat e else 1 / 2 ^ nat (- e))"

definition f32 :: "real \<Rightarrow> real" where
  "f32 x =
     (if x = 0 then 0
      else (let e = max \<lfloor>log 2 \<bar>x\<bar>\<rfloor> (- 126);
                ulp = pow2 (e - 23)
            in of_int (round_even (x / ulp)) * ulp))"

text \<open>
  The numpy operations of \<open>_build_similarity_matrix\<close> on one row, over a rounding \<open>rnd\<close>
  applied after every multiplication, addition, division and square root: \<open>rnd = f32\<close> is
  the code, \<open>rnd = id\<close> is the same computation in exact arithmetic. Sums are accumulated
  from left to right; numpy and BLAS may add a long row in blocks, an order the model does
  not follow.
\<close>

definition reduce_add :: "(real \<Rightarrow> real) \<Rightarrow> real list \<Rightarrow> real" where
  "reduce_add rnd xs = foldl (\<lambda>acc x. rnd (acc + x)) 0 xs"

text \<open>\<open>np.linalg.norm(embeddings, axis=1)\<close> on one row: \<open>sqrt(add.reduce(x * x))\<close>.\<close>

definition linalg_norm :: "(real \<Rightarrow> real) \<Rightarrow> real list \<Rightarrow> real" where
  "linalg_norm rnd v = rnd (sqrt (reduce_add rnd (map (\<lambda>x. rnd (x * x)) v)))"

text \<open>One entry of \<open>np.dot(normed, normed.T)\<close>.\<close>

definition np_dot :: "(real \<Rightarrow> real) \<Rightarrow> real list \<Rightarrow> real list \<Rightarrow> real" where
  "np_dot rnd u v = reduce_add rnd (map2 (\<lambda>x y. rnd (x * y)) u v)"

text \<open>The body of \<open>_build_similarity_matrix\<close> after the encoder call: each row divided by
  its norm plus \<open>1e-8\<close>, all pairwise dot products, then
  \<open>np.fill_diagonal(sim_matrix, 0.0)\<close>.\<close>

definition similarity_with :: "(real \<Rightarrow> real) \<Rightarrow> real list list \<Rightarrow> real list list" where
  "similarity_with rnd embeddings =
     (let norm = map (\<lambda>e. rnd (linalg_norm rnd e + rnd (1 / 10 ^ 8))) embeddings;
          normed = map2 (\<lambda>e n. map (\<lambda>x. rnd (x / n)) e) embeddings norm;
          n = length normed
      in map (\<lambda>i. map (\<lambda>j. if i = j then 0 else np_dot rnd (normed ! i) (normed ! j)) [0..<n])
           [0..<n])"

definition build_similarity_matrix :: "pystr list \<Rightarrow> (pystr list \<Rightarrow> real list list) \<Rightarrow> real list list" where
  "build_similarity_matrix sentences model_encode = similarity_with f32 (model_encode sentences)"

text \<open>\<open>embeddings.mean(dim=0)\<close>.\<close>

definition mean_dim0 :: "real list list \<Rightarrow> real list" where
  "mean_dim0 embeddings =
     (case embeddings of [] \<Rightarrow> []
      | e # es \<Rightarrow> map (\<lambda>x. x / real (length embeddings)) (foldl (map2 (+)) e es))"

definition empty_result :: ExtractiveSummaryResult where
  "empty_result = \<lparr>summary = [], selected_sentences = [], indices = [], scores = []\<rparr>"

text \<open>
  Lines 64 to 77 of \<open>centroid_extractive_summary\<close> and lines 104 to 117 of
  \<open>textrank_extractive_summary\<close>, which are the same code: rank by \<open>argsort\<close> of the negated
  scores, keep \<open>ranked_idx[:k]\<close>, sort the kept indices, and build the result.
\<close>

definition select_sentences ::
  "(real list \<Rightarrow> nat list) \<Rightarrow> pystr list \<Rightarrow> real list \<Rightarrow> int \<Rightarrow> py_error + ExtractiveSummaryResult" where
  "select_sentences np_argsort sentences score_arr num_sentences =
     (let ranked_idx = np_argsort (map uminus score_arr);
          k = min num_sentences (int (length sentences));
          selected_idx = sort (py_slice ranked_idx 0 k)
      in case py_getitems sentences selected_idx of
           Inl e \<Rightarrow> Inl e
         | Inr sel_sentences \<Rightarrow>
             (case py_getitems score_arr selected_idx of
                Inl e \<Rightarrow> Inl e
              | Inr selected_scores \<Rightarrow>
                  Inr \<lparr>summary = py_join [32] sel_sentences,
                       selected_sentences = sel_sentences,
                       indices = selected_idx,
                       scores = selected_scores\<rparr>))"

text \<open>The score array of the centroid ranker (lines 56 to 62).\<close>

definition centroid_scores :: "libs \<Rightarrow> pystr list \<Rightarrow> real list" where
  "centroid_scores L sentences =
     (let embeddings = encode L sentences;
          doc_centroid = mean_dim0 embeddings
      in cos_sim L embeddings doc_centroid)"

definition centroid_extractive_summary :: "libs \<Rightarrow> pystr \<Rightarrow> int \<Rightarrow> py_error + ExtractiveSummaryResult" where
  "centroid_extractive_summary L text num_sentences =
     (let cleaned = basic_clean text;
          sentences = sentence_split (sent_tokenize L) cleaned
      in if sentences = [] then Inr empty_result
         else select_sentences (argsort L) sentences (centroid_scores L sentences) num_sentences)"

text \<open>The score array of the graph ranker (lines 94 to 103).\<close>

definition textrank_scores :: "libs \<Rightarrow> pystr list \<Rightarrow> py_error + real list" where
  "textrank_scores L sentences = pagerank L (build_similarity_matrix sentences (encode L))"

definition textrank_extractive_summary :: "libs \<Rightarrow> pystr \<Rightarrow> int \<Rightarrow> py_error + ExtractiveSummaryResult" where
  "textrank_extractive_summary L text num_sentences =
     (let cleaned = basic_clean text;
          sentences = sentence_split (sent_tokenize L) cleaned
      in if sentences = [] then Inr empty_result
         else case textrank_scores L sentences of
                Inl e \<Rightarrow> Inl e
              | Inr score_arr \<Rightarrow> select_sentences (argsort L) sentences score_arr num_sentences)"

text \<open>
  What numpy documents of \<open>argsort\<close>: the result lists every index of the array once, and
  the array read along it is ascending. The default \<open>kind\<close> is \<open>quicksort\<close>, which numpy
  documents as not stable, so the order of equal entries is not part of the contract.
\<close>

definition is_argsort :: "real list \<Rightarrow> nat list \<Rightarrow> bool" where
  "is_argsort xs idx \<longleftrightarrow>
     distinct idx \<and> set idx = {0..<length xs} \<and> sorted (map (\<lambda>i. xs ! i) idx)"

text \<open>A stable argsort: equal entries stay in ascending index order.\<close>

definition stable_argsort :: "real list \<Rightarrow> nat list" where
  "stable_argsort xs = sort_key (\<lambda>i. xs ! i) [0..<length xs]"

section \<open>summarizers/abstractive.py\<close>

record AbstractiveSummaryResult =
  summary :: pystr
  chunks :: "pystr list"
  chunk_summaries :: "pystr list"

text \<open>The \<open>while\<close> loop of \<open>_chunk_text\<close>, from a value of \<open>start\<close> and the chunks so far.
  \<open>None\<close> is a loop that never ends.\<close>

partial_function (option) chunk_loop :: "pystr \<Rightarrow> int \<Rightarrow> int \<Rightarrow> int \<Rightarrow> pystr list \<Rightarrow> pystr list option" where
  "chunk_loop text max_chars overlap start acc =
     (if start < int (length text) then
        (let end = min (int (length text)) (start + max_chars);
             chunk = py_slice text start end;
             acc' = acc @ [chunk]
         in if end = int (length text) then Some acc'
            else chunk_loop text max_chars overlap (end - overlap) acc')
      else Some acc)"

definition chunk_text :: "pystr \<Rightarrow> int \<Rightarrow> int \<Rightarrow> pystr list option" where
  "chunk_text text max_chars overlap =
     (if int (length text) \<le> max_chars then Some [text]
      else chunk_loop text max_chars overlap 0 [])"

text \<open>
  The generative model is a parameter: \<open>summarizer chunk max_length min_length\<close> is
  \<open>result[0]["summary_text"]\<close> of one pipeline call with \<open>do_sample=False\<close>. The model
  records every call: the second component of the state is the list of texts the
  pipeline was called with, in order.
\<close>

type_synonym summarizer = "pystr \<Rightarrow> int \<Rightarrow> int \<Rightarrow> pystr"

fun summarize_chunks ::
  "summarizer \<Rightarrow> int \<Rightarrow> int \<Rightarrow> pystr list \<Rightarrow> pystr list \<times> pystr list \<Rightarrow> pystr list \<times> pystr list" where
  "summarize_chunks f max_length min_length [] st = st"
| "summarize_chunks f max_length min_length (chunk # rest) (csums, calls) =
     summarize_chunks f max_length min_length rest
       (csums @ [f chunk max_length min_length], calls @ [chunk])"

definition abstractive_summary ::
  "summarizer \<Rightarrow> pystr \<Rightarrow> int \<Rightarrow> int \<Rightarrow> (AbstractiveSummaryResult \<times> pystr list) option" where
  "abstractive_summary f text max_length min_length =
     (let cleaned = basic_clean text
      in case chunk_text cleaned 2000 200 of
           None \<Rightarrow> None
         | Some chs \<Rightarrow>
             (case summarize_chunks f max_length min_length chs ([], []) of
                (csums, calls) \<Rightarrow>
                  if length csums = 1
                  then Some (\<lparr>summary = csums ! 0, chunks = chs, chunk_summaries = csums\<rparr>, calls)
                  else (let combined = py_join [32] csums
                        in Some (\<lparr>summary = f combined max_length min_length,
                                  chunks = chs, chunk_summaries = csums\<rparr>,
                                 calls @ [combined]))))"

section \<open>utils/evaluation.py\<close>

record Score =
  precision :: real
  recall :: real
  fmeasure :: real

record RougeScores =
  rouge1 :: Score
  rouge2 :: Score
  rougeL :: Score

text \<open>\<open>compute_rouge\<close> takes the scorer as a parameter: \<open>rouge_score use_stemmer ref cand\<close> is
  \<open>RougeScorer(["rouge1", "rouge2", "rougeL"], use_stemmer).score(ref, cand)\<close>.\<close>

type_synonym scorer = "bool \<Rightarrow> pystr \<Rightarrow> pystr \<Rightarrow> RougeScores"

definition zero_score :: Score where
  "zero_score = \<lparr>precision = 0, recall = 0, fmeasure = 0\<rparr>"

definition add_score :: "Score \<Rightarrow> Score \<Rightarrow> Score" where
  "add_score a s = \<lparr>precision = precision a + precision s,
                    recall = recall a + recall s,
                    fmeasure = fmeasure a + fmeasure s\<rparr>"

text \<open>One pass of the inner loop over the three keys (lines 35 to 38).\<close>

definition accumulate :: "RougeScores \<Rightarrow> RougeScores \<Rightarrow> RougeScores" where
  "accumulate agg s = \<lparr>rouge1 = add_score (rouge1 agg) (rouge1 s),
                       rouge2 = add_score (rouge2 agg) (rouge2 s),
                       rougeL = add_score (rougeL agg) (rougeL s)\<rparr>"

text \<open>\<open>x /= n\<close> for a float \<open>x\<close> and an integer \<open>n\<close>.\<close>

definition py_truediv :: "real \<Rightarrow> nat \<Rightarrow> py_error + real" where
  "py_truediv x n = (if n = 0 then Inl ZeroDivisionError else Inr (x / real n))"

definition bind_err :: "py_error + 'a \<Rightarrow> ('a \<Rightarrow> py_error + 'b) \<Rightarrow> py_error + 'b" where
  "bind_err m f = (case m of Inl e \<Rightarrow> Inl e | Inr a \<Rightarrow> f a)"

definition div_score :: "Score \<Rightarrow> nat \<Rightarrow> py_error + Score" where
  "div_score a n =
     bind_err (py_truediv (precision a) n) (\<lambda>p.
     bind_err (py_truediv (recall a) n) (\<lambda>r.
     bind_err (py_truediv (fmeasure a) n) (\<lambda>f.
     Inr \<lparr>precision = p, recall = r, fmeasure = f\<rparr>)))"

definition compute_rouge :: "scorer \<Rightarrow> pystr list \<Rightarrow> pystr list \<Rightarrow> bool \<Rightarrow> py_error + RougeScores" where
  "compute_rouge rouge_score references candidates use_stemmer =
     (if length references \<noteq> length candidates then Inl ValueError
      else
        (let agg0 = \<lparr>rouge1 = zero_score, rouge2 = zero_score, rougeL = zero_score\<rparr>;
             n = length references;
             agg = foldl (\<lambda>agg (ref, cand). accumulate agg (rouge_score use_stemmer ref cand))
                     agg0 (zip references candidates)
         in bind_err (div_score (rouge1 agg) n) (\<lambda>r1.
            bind_err (div_score (rouge2 agg) n) (\<lambda>r2.
            bind_err (div_score (rougeL agg) n) (\<lambda>rl.
            Inr \<lparr>rouge1 = r1, rouge2 = r2, rougeL = rl\<rparr>)))))"

subsection \<open>The scorer of the rouge\_score package\<close>

text \<open>
  \<open>RougeScorer(["rouge1", "rouge2", "rougeL"], use_stemmer).score(target, prediction)\<close> as
  the package computes it (\<open>tokenize.py\<close>, \<open>rouge_scorer.py\<close>, \<open>scoring.py\<close>). Two library
  functions stay parameters: \<open>lower\<close> is \<open>str.lower\<close> and \<open>stem\<close> is the Porter stemmer.
\<close>

text \<open>The class \<open>[a-z0-9]\<close>.\<close>

definition is_alnum :: "pychar \<Rightarrow> bool" where
  "is_alnum c \<longleftrightarrow> (97 \<le> c \<and> c \<le> 122) \<or> (48 \<le> c \<and> c \<le> 57)"

text \<open>\<open>re.sub(r"[^a-z0-9]+", " ", text)\<close>.\<close>

function sub_non_alnum :: "pystr \<Rightarrow> pystr" where
  "sub_non_alnum [] = []"
| "sub_non_alnum (c # cs) =
     (if is_alnum c then c # sub_non_alnum cs
      else 32 # sub_non_alnum (dropWhile (\<lambda>d. \<not> is_alnum d) cs))"
  by pat_completeness auto
termination
  by (relation "measure length") (auto simp: less_Suc_eq_le length_dropWhile_le)

text \<open>\<open>re.split(r"\s+", text)\<close>, with the piece read so far: a separator at either end leaves
  an empty piece there.\<close>

function split_spaces :: "pystr \<Rightarrow> pystr \<Rightarrow> pystr list" where
  "split_spaces cur [] = [cur]"
| "split_spaces cur (c # cs) =
     (if is_space c then cur # split_spaces [] (dropWhile is_space cs)
      else split_spaces (cur @ [c]) cs)"
  by pat_completeness auto
termination
  by (relation "measure (\<lambda>(cur, s). length s)") (auto simp: less_Suc_eq_le length_dropWhile_le)

text \<open>\<open>re.match(r"^[a-z0-9]+$", x)\<close>; \<open>$\<close> also matches before one final newline.\<close>

definition valid_token :: "pystr \<Rightarrow> bool" where
  "valid_token x \<longleftrightarrow>
     x \<noteq> [] \<and> (list_all is_alnum x \<or> (last x = 10 \<and> butlast x \<noteq> [] \<and> list_all is_alnum (butlast x)))"

definition tokenize :: "(pystr \<Rightarrow> pystr) \<Rightarrow> (pystr \<Rightarrow> pystr) \<Rightarrow> bool \<Rightarrow> pystr \<Rightarrow> pystr list" where
  "tokenize lower stem use_stemmer text =
     (let lowered = lower text;
          spaced = sub_non_alnum lowered;
          tokens = split_spaces [] spaced;
          stemmed = (if use_stemmer then map (\<lambda>x. if length x > 3 then stem x else x) tokens
                     else tokens)
      in filter valid_token stemmed)"

text \<open>\<open>_create_ngrams\<close>: the n-grams in order; the \<open>Counter\<close> is read off the list with
  \<open>count_list\<close>.\<close>

definition create_ngrams :: "pystr list \<Rightarrow> nat \<Rightarrow> pystr list list" where
  "create_ngrams tokens n = map (\<lambda>i. take n (drop i tokens)) [0..<(length tokens + 1) - n]"

text \<open>\<open>scoring.fmeasure\<close>.\<close>

definition f_measure :: "real \<Rightarrow> real \<Rightarrow> real" where
  "f_measure p r = (if p + r > 0 then 2 * p * r / (p + r) else 0)"

definition score_ngrams :: "pystr list list \<Rightarrow> pystr list list \<Rightarrow> Score" where
  "score_ngrams target_ngrams prediction_ngrams =
     (let intersection_ngrams_count =
            sum_list (map (\<lambda>g. min (count_list target_ngrams g) (count_list prediction_ngrams g))
                       (remdups target_ngrams));
          target_ngrams_count = length target_ngrams;
          prediction_ngrams_count = length prediction_ngrams;
          p = real intersection_ngrams_count / real (max prediction_ngrams_count 1);
          r = real intersection_ngrams_count / real (max target_ngrams_count 1)
      in \<lparr>precision = p, recall = r, fmeasure = f_measure p r\<rparr>)"

text \<open>The last cell of \<open>_lcs_table\<close>: the cell for two prefixes is computed from the cells
  for the prefixes one shorter.\<close>

function lcs_length :: "pystr list \<Rightarrow> pystr list \<Rightarrow> nat" where
  "lcs_length xs ys =
     (if xs = [] \<or> ys = [] then 0
      else if last xs = last ys then lcs_length (butlast xs) (butlast ys) + 1
      else max (lcs_length (butlast xs) ys) (lcs_length xs (butlast ys)))"
  by pat_completeness auto
termination
  by (relation "measure (\<lambda>(xs, ys). length xs + length ys)") (auto simp flip: length_greater_0_conv)

declare lcs_length.simps [simp del]

definition score_lcs :: "pystr list \<Rightarrow> pystr list \<Rightarrow> Score" where
  "score_lcs target_tokens prediction_tokens =
     (if target_tokens = [] \<or> prediction_tokens = [] then zero_score
      else
        (let n = lcs_length target_tokens prediction_tokens;
             p = real n / real (length prediction_tokens);
             r = real n / real (length target_tokens)
         in \<lparr>precision = p, recall = r, fmeasure = f_measure p r\<rparr>))"

definition rouge_scorer :: "(pystr \<Rightarrow> pystr) \<Rightarrow> (pystr \<Rightarrow> pystr) \<Rightarrow> scorer" where
  "rouge_scorer lower stem use_stemmer target prediction =
     (let target_tokens = tokenize lower stem use_stemmer target;
          prediction_tokens = tokenize lower stem use_stemmer prediction
      in \<lparr>rouge1 = score_ngrams (create_ngrams target_tokens 1) (create_ngrams prediction_tokens 1),
          rouge2 = score_ngrams (create_ngrams target_tokens 2) (create_ngrams prediction_tokens 2),
          rougeL = score_lcs target_tokens prediction_tokens\<rparr>)"

text \<open>\<open>str.lower\<close> on ASCII text, and a stemmer for texts whose tokens have at most three
  characters, which the tokenizer never stems.\<close>

definition ascii_lower :: "pystr \<Rightarrow> pystr" where
  "ascii_lower text = map (\<lambda>c. if 65 \<le> c \<and> c \<le> 90 then c + 32 else c) text"

definition no_stem :: "pystr \<Rightarrow> pystr" where
  "no_stem x = x"

section \<open>Stand-ins for the libraries\<close>

text \<open>
  Small executable stand-ins for the external libraries, used to run the model on
  concrete inputs: a tokenizer that ends a sentence after every full stop, an encoder
  that maps a sentence to the vector (length, 1), a similarity that is the dot product
  with the centroid, and a page rank that gives every node the same score.
\<close>

fun split_after_stop :: "pystr \<Rightarrow> pystr \<Rightarrow> pystr list" where
  "split_after_stop cur [] = (if cur = [] then [] else [cur])"
| "split_after_stop cur (c # cs) =
     (if c = 46 then (cur @ [c]) # split_after_stop [] cs else split_after_stop (cur @ [c]) cs)"

definition uniform_rank :: "real list list \<Rightarrow> py_error + real list" where
  "uniform_rank M = Inr (map (\<lambda>row. 1 / real (length M)) M)"

definition stub_libs :: libs where
  "stub_libs = \<lparr>sent_tokenize = split_after_stop [],
                 encode = map (\<lambda>s. [real (length s), 1]),
                 cos_sim = (\<lambda>E c. map (\<lambda>e. dot e c) E),
                 argsort = stable_argsort,
                 pagerank = uniform_rank\<rparr>"

definition stub_summarizer :: summarizer where
  "stub_summarizer chunk max_length min_length = take (nat max_length) chunk"

definition ones :: RougeScores where
  "ones = (let one = \<lparr>precision = 1, recall = 1, fmeasure = 1\<rparr>
           in \<lparr>rouge1 = one, rouge2 = one, rougeL = one\<rparr>)"

text \<open>The arithmetic mean of a batch of numbers.\<close>

definition mean :: "real list \<Rightarrow> real" where
  "mean xs = sum_list xs / real (length xs)"

text \<open>
  What the summarizers need from the libraries on one sentence list: a score per
  sentence, and an argsort of the negated scores that meets numpy's contract.
\<close>

definition centroid_ok :: "libs \<Rightarrow> pystr list \<Rightarrow> bool" where
  "centroid_ok L sentences \<longleftrightarrow>
     (let sc = centroid_scores L sentences
      in length sc = length sentences \<and> is_argsort (map uminus sc) (argsort L (map uminus sc)))"

definition textrank_ok :: "libs \<Rightarrow> pystr list \<Rightarrow> bool" where
  "textrank_ok L sentences \<longleftrightarrow>
     (case textrank_scores L sentences of
        Inl e \<Rightarrow> False
      | Inr sc \<Rightarrow> length sc = length sentences \<and>
                  is_argsort (map uminus sc) (argsort L (map uminus sc)))"

text \<open>
  The same contract for the graph ranker where \<open>nx.pagerank\<close> may raise: it binds the
  libraries only when page rank returns.
\<close>

definition textrank_contract :: "libs \<Rightarrow> pystr list \<Rightarrow> bool" where
  "textrank_contract L sentences \<longleftrightarrow>
     (case textrank_scores L sentences of
        Inl e \<Rightarrow> True
      | Inr sc \<Rightarrow> length sc = length sentences \<and>
                  is_argsort (map uminus sc) (argsort L (map uminus sc)))"


text \<open>A page rank whose power iteration never converges.\<close>

definition failing_rank :: "real list list \<Rightarrow> py_error + real list" where
  "failing_rank M = Inl PowerIterationFailedConvergence"

section \<open>The text normalizer\<close>

lemma is_space_32: "is_space 32"
  by (simp add: is_space_def)

lemma is_space_repl: "is_space (if is_ctrl c then 32 else c) \<longleftrightarrow> is_sep c"
  by (simp add: is_sep_def is_space_32)

lemma sub_ws_runs_dropWhile:
  "dropWhile is_space (sub_ws_runs s) = sub_ws_runs (dropWhile is_space s)"
  by (induction s rule: sub_ws_runs.induct) (simp_all add: is_space_32)

lemma sub_ws_runs_append:
  "\<forall>c\<in>set u. \<not> is_space c \<Longrightarrow> sub_ws_runs (u @ v) = u @ sub_ws_runs v"
  by (induction u) simp_all

lemma rstrip_append:
  "rev (dropWhile P (rev (u @ v))) =
     (if rev (dropWhile P (rev v)) = [] then rev (dropWhile P (rev u))
      else u @ rev (dropWhile P (rev v)))"
  by (simp add: dropWhile_append)

lemma rstrip_id: "\<forall>c\<in>set u. \<not> P c \<Longrightarrow> rev (dropWhile P (rev u)) = u"
  by (cases u rule: rev_cases) simp_all

lemma words_of_nonempty: "[] \<notin> set (words_of t)"
  by (induction t rule: words_of.induct) auto

lemma py_join_Nil_iff: "[] \<notin> set ws \<Longrightarrow> py_join sep ws = [] \<longleftrightarrow> ws = []"
  by (induction sep ws rule: py_join.induct) auto

lemma py_join_Cons: "py_join sep (w # ws) = (if ws = [] then w else w @ sep @ py_join sep ws)"
  by (cases ws) simp_all

lemma repl_id: "\<forall>c\<in>set w. \<not> is_sep c \<Longrightarrow> map (\<lambda>c. if is_ctrl c then 32 else c) w = w"
  by (induction w) (auto simp: is_sep_def)

lemma clean_words:
  "rev (dropWhile is_space (rev (sub_ws_runs (dropWhile is_space
       (map (\<lambda>c. if is_ctrl c then 32 else c) t))))) = py_join [32] (words_of t)"
proof (induction t rule: words_of.induct)
  case 1
  show ?case by simp
next
  case (2 c cs)
  let ?R = "map (\<lambda>c. if is_ctrl c then 32 else c)"
  show ?case
  proof (cases "is_sep c")
    case True
    then have "is_space (if is_ctrl c then 32 else c)"
      by (simp add: is_space_repl)
    with True 2 show ?thesis by simp
  next
    case False
    define w where "w = takeWhile (\<lambda>d. \<not> is_sep d) cs"
    define r where "r = dropWhile (\<lambda>d. \<not> is_sep d) cs"
    have cs: "cs = w @ r" by (simp add: w_def r_def)
    have w_nosep: "\<forall>d\<in>set (c # w). \<not> is_sep d"
      using False by (auto simp: w_def dest: set_takeWhileD)
    then have w_nosp: "\<forall>d\<in>set (c # w). \<not> is_space d"
      by (auto simp: is_sep_def)
    have Rw: "?R (c # w) = c # w"
      using w_nosep by (rule repl_id)
    have IH: "rev (dropWhile is_space (rev (sub_ws_runs (dropWhile is_space (?R r)))))
                = py_join [32] (words_of r)"
      using 2(2)[OF False] by (simp add: r_def)
    have words: "words_of (c # cs) = (c # w) # words_of r"
      using False by (simp add: w_def r_def)
    have "?R (c # cs) = (c # w) @ ?R r"
      using Rw by (simp add: cs)
    moreover have "dropWhile is_space ((c # w) @ ?R r) = (c # w) @ ?R r"
      using w_nosp by simp
    ultimately have lhs: "sub_ws_runs (dropWhile is_space (?R (c # cs))) = (c # w) @ sub_ws_runs (?R r)"
      using sub_ws_runs_append[OF w_nosp] by simp
    show ?thesis
    proof (cases r)
      case Nil
      then show ?thesis
        using lhs words rstrip_id[OF w_nosp] by simp
    next
      case (Cons d r')
      then have "is_sep d"
        using dropWhile_eq_Cons_conv[of "\<lambda>d. \<not> is_sep d" cs d r'] by (simp add: r_def)
      then have spd: "is_space (if is_ctrl d then 32 else d)"
        by (simp add: is_space_repl)
      then have dw: "dropWhile is_space (?R r) = dropWhile is_space (?R r')"
        by (simp add: Cons)
      have "sub_ws_runs (?R r) = 32 # sub_ws_runs (dropWhile is_space (?R r'))"
        using spd by (simp add: Cons)
      then have sub: "sub_ws_runs (?R r) = [32] @ sub_ws_runs (dropWhile is_space (?R r))"
        by (simp add: dw)
      have nonempty: "py_join [32] (words_of r) = [] \<longleftrightarrow> words_of r = []"
        by (rule py_join_Nil_iff) (rule words_of_nonempty)
      have "rev (dropWhile is_space (rev ((c # w) @ [32] @ sub_ws_runs (dropWhile is_space (?R r)))))
             = (if words_of r = [] then c # w else (c # w) @ [32] @ py_join [32] (words_of r))"
        unfolding rstrip_append[of is_space "c # w"] rstrip_append[of is_space "[32]"] IH nonempty
        using rstrip_id[OF w_nosp] by (simp add: is_space_32)
      then show ?thesis
        unfolding lhs sub words py_join_Cons by simp
    qed
  qed
qed

lemma basic_clean_words: "basic_clean t = py_join [32] (words_of t)"
  unfolding basic_clean_def normalize_whitespace_def py_strip_def sub_ws_runs_dropWhile
  by (rule clean_words)

lemma words_of_chars: "w \<in> set (words_of t) \<Longrightarrow> c \<in> set w \<Longrightarrow> \<not> is_sep c"
  by (induction t rule: words_of.induct) (auto split: if_splits dest: set_takeWhileD)

lemma concat_words_of: "concat (words_of t) = filter (\<lambda>c. \<not> is_sep c) t"
proof (induction t rule: words_of.induct)
  case 1
  show ?case by simp
next
  case (2 c cs)
  have "filter (\<lambda>c. \<not> is_sep c) cs =
        filter (\<lambda>c. \<not> is_sep c) (takeWhile (\<lambda>d. \<not> is_sep d) cs @ dropWhile (\<lambda>d. \<not> is_sep d) cs)"
    by simp
  also have "\<dots> = takeWhile (\<lambda>d. \<not> is_sep d) cs @ filter (\<lambda>c. \<not> is_sep c) (dropWhile (\<lambda>d. \<not> is_sep d) cs)"
    unfolding filter_append by (auto simp: filter_id_conv dest: set_takeWhileD)
  finally show ?case using 2 by simp
qed

lemma set_py_join: "set (py_join sep ws) \<subseteq> set sep \<union> \<Union> (set ` set ws)"
  by (induction sep ws rule: py_join.induct) auto

lemma hd_py_join: "ws \<noteq> [] \<Longrightarrow> hd ws \<noteq> [] \<Longrightarrow> hd (py_join sep ws) = hd (hd ws)"
  by (induction sep ws rule: py_join.induct) auto

lemma py_join_last_nonempty: "ws \<noteq> [] \<Longrightarrow> last ws \<noteq> [] \<Longrightarrow> py_join sep ws \<noteq> []"
  by (induction sep ws rule: py_join.induct) auto

lemma last_py_join: "ws \<noteq> [] \<Longrightarrow> last ws \<noteq> [] \<Longrightarrow> last (py_join sep ws) = last (last ws)"
proof (induction sep ws rule: py_join.induct)
  case (3 sep x y ys)
  then have "py_join sep (y # ys) \<noteq> []"
    using py_join_last_nonempty[of "y # ys" sep] by simp
  with 3 show ?case by simp
qed simp_all

lemma py_join_no_double:
  "\<forall>w\<in>set ws. w \<noteq> [] \<and> x \<notin> set w \<Longrightarrow> Suc i < length (py_join [x] ws) \<Longrightarrow>
     \<not> (py_join [x] ws ! i = x \<and> py_join [x] ws ! Suc i = x)"
proof (induction "[x]" ws arbitrary: i rule: py_join.induct)
  case 1
  then show ?case by simp
next
  case (2 w)
  then show ?case by (auto simp: in_set_conv_nth)
next
  case (3 w y ys)
  let ?J = "py_join [x] (y # ys)"
  have hdJ: "?J \<noteq> []" "hd ?J \<noteq> x"
    using 3(2) hd_py_join[of "y # ys" "[x]"] py_join_Nil_iff[of "y # ys" "[x]"]
    by auto
  show ?case
  proof (cases "i < length w")
    case True
    then have "(w @ [x] @ ?J) ! i = w ! i" by (simp add: nth_append)
    moreover have "w ! i \<noteq> x" using 3(2) True by (auto simp: in_set_conv_nth)
    ultimately show ?thesis by simp
  next
    case False
    show ?thesis
    proof (cases "i = length w")
      case True
      then have "(w @ [x] @ ?J) ! Suc i = hd ?J"
        using hdJ(1) by (simp add: nth_append hd_conv_nth)
      then show ?thesis using hdJ(2) by simp
    next
      case F2: False
      with False obtain i' where i': "i = Suc (length w + i')"
        by (metis less_iff_Suc_add linorder_neqE_nat)
      then have a: "(w @ [x] @ ?J) ! i = ?J ! i'" "(w @ [x] @ ?J) ! Suc i = ?J ! Suc i'"
        by (simp_all add: nth_append)
      have "Suc i' < length ?J" using 3(3) i' by simp
      then have "\<not> (?J ! i' = x \<and> ?J ! Suc i' = x)"
        using 3(1)[of i'] 3(2) by simp
      then show ?thesis using a by simp
    qed
  qed
qed

text \<open>
  C5. \<open>basic_clean\<close> is a total function, and on every string its result is the words of
  the input (the maximal runs of characters that are neither one of the listed control
  characters nor whitespace) joined by single spaces. So each control character and each
  run of whitespace has become one space between two words, nothing but separators was
  removed, the result holds no control character and no whitespace but single spaces,
  never two spaces in a row, none at either end, and the empty string stays empty.
\<close>

theorem basic_clean_normalizes:
  "basic_clean raw = normalize_spec raw
   \<and> concat (words_of raw) = filter (\<lambda>c. \<not> is_sep c) raw
   \<and> (\<forall>w\<in>set (words_of raw). w \<noteq> [] \<and> (\<forall>c\<in>set w. \<not> is_ctrl c \<and> \<not> is_space c))
   \<and> (\<forall>c\<in>set (basic_clean raw). \<not> is_ctrl c \<and> (is_space c \<longrightarrow> c = 32))
   \<and> (\<forall>i. Suc i < length (basic_clean raw) \<longrightarrow>
          \<not> (basic_clean raw ! i = 32 \<and> basic_clean raw ! Suc i = 32))
   \<and> (basic_clean raw \<noteq> [] \<longrightarrow>
          \<not> is_space (hd (basic_clean raw)) \<and> \<not> is_space (last (basic_clean raw)))
   \<and> basic_clean [] = []"
proof -
  let ?ws = "words_of raw"
  have eq: "basic_clean raw = py_join [32] ?ws"
    by (rule basic_clean_words)
  have words: "\<forall>w\<in>set ?ws. w \<noteq> [] \<and> (\<forall>c\<in>set w. \<not> is_sep c)"
    using words_of_nonempty[of raw] words_of_chars[of _ raw] by auto
  have not32: "\<not> is_sep c \<Longrightarrow> c \<noteq> 32" for c
    using is_space_32 by (auto simp: is_sep_def)
  have c1: "basic_clean raw = normalize_spec raw"
    by (simp add: eq normalize_spec_def)
  have c2: "concat ?ws = filter (\<lambda>c. \<not> is_sep c) raw"
    by (rule concat_words_of)
  have c3: "\<forall>w\<in>set ?ws. w \<noteq> [] \<and> (\<forall>c\<in>set w. \<not> is_ctrl c \<and> \<not> is_space c)"
    using words by (auto simp: is_sep_def)
  have c4: "\<forall>c\<in>set (basic_clean raw). \<not> is_ctrl c \<and> (is_space c \<longrightarrow> c = 32)"
  proof
    fix c assume "c \<in> set (basic_clean raw)"
    then have "c = 32 \<or> (\<exists>w\<in>set ?ws. c \<in> set w)"
      using set_py_join[of "[32]" ?ws] by (auto simp: eq)
    then show "\<not> is_ctrl c \<and> (is_space c \<longrightarrow> c = 32)"
      using c3 by (auto simp: is_ctrl_def)
  qed
  have c5: "\<forall>i. Suc i < length (basic_clean raw) \<longrightarrow>
              \<not> (basic_clean raw ! i = 32 \<and> basic_clean raw ! Suc i = 32)"
    unfolding eq using py_join_no_double[of ?ws 32] words not32 by blast
  have c6: "basic_clean raw \<noteq> [] \<longrightarrow>
              \<not> is_space (hd (basic_clean raw)) \<and> \<not> is_space (last (basic_clean raw))"
  proof
    assume "basic_clean raw \<noteq> []"
    then have ne: "?ws \<noteq> []" by (auto simp: eq)
    then have "hd ?ws \<in> set ?ws" "last ?ws \<in> set ?ws" by simp_all
    then have h: "hd ?ws \<noteq> []" "last ?ws \<noteq> []"
      and sp: "\<not> is_space (hd (hd ?ws))" "\<not> is_space (last (last ?ws))"
      using c3 by auto
    show "\<not> is_space (hd (basic_clean raw)) \<and> \<not> is_space (last (basic_clean raw))"
      using sp by (simp add: eq hd_py_join[OF ne h(1)] last_py_join[OF ne h(2)])
  qed
  have c7: "basic_clean [] = []"
    by (simp add: basic_clean_def normalize_whitespace_def py_strip_def)
  from c1 c2 c3 c4 c5 c6 c7 show ?thesis by (intro conjI)
qed

theorem basic_clean_normalizes_witness:
  "basic_clean [32, 7, 72, 105, 9, 10, 121, 111, 0, 160] = ascii ''Hi yo''
   \<and> basic_clean [32, 7, 72, 105, 9, 10, 121, 111, 0, 160] \<noteq> []
   \<and> \<not> is_space (hd (basic_clean [32, 7, 72, 105, 9, 10, 121, 111, 0, 160]))
   \<and> \<not> is_space (last (basic_clean [32, 7, 72, 105, 9, 10, 121, 111, 0, 160]))"
proof -
  let ?raw = "[32, 7, 72, 105, 9, 10, 121, 111, 0, 160] :: pystr"
  note t = basic_clean_normalizes[of ?raw]
  have sep: "is_sep 32" "is_sep 7" "is_sep 9" "is_sep 10" "is_sep 0" "is_sep 160"
    "\<not> is_sep 72" "\<not> is_sep 105" "\<not> is_sep 121" "\<not> is_sep 111"
    by (simp_all add: is_sep_def is_ctrl_def is_space_def)
  have spec: "normalize_spec ?raw = ascii ''Hi yo''"
    by (simp add: normalize_spec_def sep ascii_def)
  have v: "basic_clean ?raw = ascii ''Hi yo''"
    using t spec by (elim conjE) (rule trans)
  have "ascii ''Hi yo'' \<noteq> []"
    by (simp add: ascii_def)
  then have ne: "basic_clean ?raw \<noteq> []"
    unfolding v .
  moreover from t have "basic_clean ?raw \<noteq> [] \<longrightarrow>
          \<not> is_space (hd (basic_clean ?raw)) \<and> \<not> is_space (last (basic_clean ?raw))"
    by (elim conjE)
  ultimately show ?thesis using v by blast
qed

section \<open>The ROUGE evaluator\<close>

lemma div_score_zero: "div_score a 0 = Inl ZeroDivisionError"
  by (simp add: div_score_def py_truediv_def bind_err_def)

lemma div_score_pos:
  "0 < n \<Longrightarrow> div_score a n =
     Inr \<lparr>precision = precision a / real n, recall = recall a / real n,
          fmeasure = fmeasure a / real n\<rparr>"
  by (simp add: div_score_def py_truediv_def bind_err_def)

lemma foldl_accumulate:
  "foldl (\<lambda>agg (ref, cand). accumulate agg (g ref cand)) a ps =
     accumulate a
       (foldl (\<lambda>agg (ref, cand). accumulate agg (g ref cand))
          \<lparr>rouge1 = zero_score, rouge2 = zero_score, rougeL = zero_score\<rparr> ps)"
proof (induction ps arbitrary: a)
  case Nil
  show ?case by (simp add: accumulate_def add_score_def zero_score_def)
next
  case (Cons p ps)
  obtain r c where p: "p = (r, c)" by (cases p)
  have "foldl (\<lambda>agg (ref, cand). accumulate agg (g ref cand)) a (p # ps)
        = accumulate (accumulate a (g r c))
            (foldl (\<lambda>agg (ref, cand). accumulate agg (g ref cand))
              \<lparr>rouge1 = zero_score, rouge2 = zero_score, rougeL = zero_score\<rparr> ps)"
    using Cons[of "accumulate a (g r c)"] by (simp add: p)
  moreover have "foldl (\<lambda>agg (ref, cand). accumulate agg (g ref cand))
              \<lparr>rouge1 = zero_score, rouge2 = zero_score, rougeL = zero_score\<rparr> (p # ps)
        = accumulate (accumulate \<lparr>rouge1 = zero_score, rouge2 = zero_score, rougeL = zero_score\<rparr> (g r c))
            (foldl (\<lambda>agg (ref, cand). accumulate agg (g ref cand))
              \<lparr>rouge1 = zero_score, rouge2 = zero_score, rougeL = zero_score\<rparr> ps)"
    using Cons[of "accumulate \<lparr>rouge1 = zero_score, rouge2 = zero_score, rougeL = zero_score\<rparr> (g r c)"] by (simp add: p)
  ultimately show ?case
    by (simp add: accumulate_def add_score_def zero_score_def add.assoc)
qed

lemma foldl_accumulate_field:
  assumes "fld = precision \<or> fld = recall \<or> fld = fmeasure"
    and "key = rouge1 \<or> key = rouge2 \<or> key = rougeL"
  shows "fld (key (foldl (\<lambda>agg (ref, cand). accumulate agg (g ref cand))
            \<lparr>rouge1 = zero_score, rouge2 = zero_score, rougeL = zero_score\<rparr> ps))
         = sum_list (map (\<lambda>(ref, cand). fld (key (g ref cand))) ps)"
proof (induction ps)
  case Nil
  show ?case using assms by (auto simp: zero_score_def)
next
  case (Cons p ps)
  obtain r c where p: "p = (r, c)" by (cases p)
  have "foldl (\<lambda>agg (ref, cand). accumulate agg (g ref cand))
              \<lparr>rouge1 = zero_score, rouge2 = zero_score, rougeL = zero_score\<rparr> (p # ps)
      = accumulate (accumulate \<lparr>rouge1 = zero_score, rouge2 = zero_score, rougeL = zero_score\<rparr> (g r c))
            (foldl (\<lambda>agg (ref, cand). accumulate agg (g ref cand))
              \<lparr>rouge1 = zero_score, rouge2 = zero_score, rougeL = zero_score\<rparr> ps)"
    using foldl_accumulate[of g "accumulate \<lparr>rouge1 = zero_score, rouge2 = zero_score, rougeL = zero_score\<rparr> (g r c)" ps]
    by (simp add: p)
  then show ?case
    using assms Cons by (auto simp: accumulate_def add_score_def zero_score_def p)
qed

lemma compute_rouge_pos:
  assumes "length refs = length cands" and "refs \<noteq> []"
  shows "compute_rouge sc refs cands st =
     Inr \<lparr>rouge1 = \<lparr>precision = mean (map (\<lambda>(r, c). precision (rouge1 (sc st r c))) (zip refs cands)),
                    recall = mean (map (\<lambda>(r, c). recall (rouge1 (sc st r c))) (zip refs cands)),
                    fmeasure = mean (map (\<lambda>(r, c). fmeasure (rouge1 (sc st r c))) (zip refs cands))\<rparr>,
          rouge2 = \<lparr>precision = mean (map (\<lambda>(r, c). precision (rouge2 (sc st r c))) (zip refs cands)),
                    recall = mean (map (\<lambda>(r, c). recall (rouge2 (sc st r c))) (zip refs cands)),
                    fmeasure = mean (map (\<lambda>(r, c). fmeasure (rouge2 (sc st r c))) (zip refs cands))\<rparr>,
          rougeL = \<lparr>precision = mean (map (\<lambda>(r, c). precision (rougeL (sc st r c))) (zip refs cands)),
                    recall = mean (map (\<lambda>(r, c). recall (rougeL (sc st r c))) (zip refs cands)),
                    fmeasure = mean (map (\<lambda>(r, c). fmeasure (rougeL (sc st r c))) (zip refs cands))\<rparr>\<rparr>"
proof -
  have n: "0 < length cands" using assms by (cases cands) auto
  have len: "length (zip refs cands) = length refs" using assms(1) by simp
  note flds = foldl_accumulate_field[of precision rouge1 "sc st" "zip refs cands", simplified]
    foldl_accumulate_field[of recall rouge1 "sc st" "zip refs cands", simplified]
    foldl_accumulate_field[of fmeasure rouge1 "sc st" "zip refs cands", simplified]
    foldl_accumulate_field[of precision rouge2 "sc st" "zip refs cands", simplified]
    foldl_accumulate_field[of recall rouge2 "sc st" "zip refs cands", simplified]
    foldl_accumulate_field[of fmeasure rouge2 "sc st" "zip refs cands", simplified]
    foldl_accumulate_field[of precision rougeL "sc st" "zip refs cands", simplified]
    foldl_accumulate_field[of recall rougeL "sc st" "zip refs cands", simplified]
    foldl_accumulate_field[of fmeasure rougeL "sc st" "zip refs cands", simplified]
  show ?thesis
    using assms(1)
    by (simp add: compute_rouge_def Let_def div_score_pos[OF n] bind_err_def mean_def len flds)
qed

lemma mean_const: "xs \<noteq> [] \<Longrightarrow> \<forall>x\<in>set xs. f x = (1::real) \<Longrightarrow> mean (map f xs) = 1"
proof -
  assume ne: "xs \<noteq> []" and one: "\<forall>x\<in>set xs. f x = 1"
  have "map f xs = replicate (length xs) 1"
    using one by (induction xs) auto
  then have "sum_list (map f xs) = real (length xs)"
    by (simp add: sum_list_replicate)
  then show ?thesis using ne by (simp add: mean_def)
qed

lemma sum_remdups_count: "sum_list (map (count_list xs) (remdups xs)) = length xs"
proof -
  have "sum_list (map (count_list xs) (remdups xs)) = sum (count_list xs) (set (remdups xs))"
    by (rule sum_list_distinct_conv_sum_set) simp
  also have "\<dots> = length xs"
    by (simp add: sum_count_set)
  finally show ?thesis .
qed

lemma score_ngrams_same:
  assumes "g \<noteq> []"
  shows "score_ngrams g g = \<lparr>precision = 1, recall = 1, fmeasure = 1\<rparr>"
proof -
  have n: "0 < length g" using assms by simp
  have m: "max (length g) (Suc 0) = length g" using assms by (cases g) simp_all
  show ?thesis
    using n by (simp add: score_ngrams_def Let_def sum_remdups_count m f_measure_def)
qed

lemma score_ngrams_Nil: "score_ngrams [] [] = zero_score"
  by (simp add: score_ngrams_def Let_def f_measure_def zero_score_def)

lemma lcs_length_same: "lcs_length xs xs = length xs"
proof (induction xs rule: rev_induct)
  case Nil
  show ?case by (subst lcs_length.simps) simp
next
  case (snoc x xs)
  show ?case by (subst lcs_length.simps) (simp add: snoc)
qed

lemma score_lcs_same:
  assumes "t \<noteq> []"
  shows "score_lcs t t = \<lparr>precision = 1, recall = 1, fmeasure = 1\<rparr>"
  using assms by (simp add: score_lcs_def Let_def lcs_length_same f_measure_def)

lemma create_ngrams_Nil_iff: "create_ngrams t n = [] \<longleftrightarrow> length t < n"
  by (auto simp: create_ngrams_def)

lemma rouge_scorer_same:
  assumes "2 \<le> length (tokenize lower stem st r)"
  shows "rouge_scorer lower stem st r r = ones"
proof -
  let ?t = "tokenize lower stem st r"
  have t: "?t \<noteq> []" using assms by (cases ?t) simp_all
  have g1: "create_ngrams ?t (Suc 0) \<noteq> []" using t by (simp add: create_ngrams_Nil_iff)
  have g2: "create_ngrams ?t 2 \<noteq> []" using assms by (simp add: create_ngrams_Nil_iff)
  show ?thesis
    by (simp add: rouge_scorer_def Let_def ones_def score_ngrams_same[OF g1]
        score_ngrams_same[OF g2] score_lcs_same[OF t])
qed

lemma rouge_scorer_single:
  assumes "length (tokenize lower stem st r) = 1"
  shows "rouge_scorer lower stem st r r =
    \<lparr>rouge1 = \<lparr>precision = 1, recall = 1, fmeasure = 1\<rparr>, rouge2 = zero_score,
     rougeL = \<lparr>precision = 1, recall = 1, fmeasure = 1\<rparr>\<rparr>"
proof -
  let ?t = "tokenize lower stem st r"
  have t: "?t \<noteq> []" using assms by (cases ?t) simp_all
  have g1: "create_ngrams ?t (Suc 0) \<noteq> []" using t by (simp add: create_ngrams_Nil_iff)
  have g2: "create_ngrams ?t 2 = []" using assms by (simp add: create_ngrams_Nil_iff)
  show ?thesis
    by (simp add: rouge_scorer_def Let_def score_ngrams_same[OF g1]
        g2 score_ngrams_Nil score_lcs_same[OF t])
qed

lemma compute_rouge_single:
  "compute_rouge sc [r] [c] st = Inr (sc st r c)"
  by (simp add: compute_rouge_def Let_def div_score_def py_truediv_def bind_err_def
      accumulate_def add_score_def zero_score_def)

lemma rouge2_short:
  assumes "length (tokenize lower stem st r) < 2"
  shows "rouge2 (rouge_scorer lower stem st r r) = zero_score"
proof -
  have "create_ngrams (tokenize lower stem st r) 2 = []"
    using assms by (simp add: create_ngrams_Nil_iff)
  then show ?thesis
    by (simp add: rouge_scorer_def Let_def score_ngrams_Nil)
qed

lemma tokenize_cat: "tokenize ascii_lower no_stem True (ascii ''cat'') = [ascii ''cat'']"
  by (simp add: tokenize_def ascii_def ascii_lower_def no_stem_def is_alnum_def is_space_def
      valid_token_def Let_def)

lemma tokenize_mat:
  "tokenize ascii_lower no_stem True (ascii ''the cat sat on the mat'')
   = [ascii ''the'', ascii ''cat'', ascii ''sat'', ascii ''on'', ascii ''the'', ascii ''mat'']"
  by (simp add: tokenize_def ascii_def ascii_lower_def no_stem_def is_alnum_def is_space_def
      valid_token_def Let_def)

text \<open>
  C7 as amended. \<open>compute_rouge\<close> raises \<open>ValueError\<close> exactly when the two collections
  differ in length and \<open>ZeroDivisionError\<close> exactly when both are empty; for equal
  positive length it returns, for each of rouge1, rouge2 and rougeL, the arithmetic mean
  over the batch of the scorer's precision, recall and f-measure. With the scorer of the
  rouge\_score package, a batch of identical pairs whose texts have at least two tokens
  each yields precision = recall = f1 = 1.0 for all three metrics; an identical pair
  with fewer than two tokens has no bigram, and its rouge2 is 0.0 on every field.
\<close>

theorem compute_rouge_mean:
  "(compute_rouge sc refs cands st = Inl ValueError \<longleftrightarrow> length refs \<noteq> length cands)
   \<and> (compute_rouge sc refs cands st = Inl ZeroDivisionError \<longleftrightarrow> refs = [] \<and> cands = [])
   \<and> (length refs = length cands \<and> refs \<noteq> [] \<longrightarrow>
        (\<exists>R. compute_rouge sc refs cands st = Inr R \<and>
           (\<forall>key\<in>{rouge1, rouge2, rougeL}. \<forall>fld\<in>{precision, recall, fmeasure}.
              fld (key R) = mean (map (\<lambda>(r, c). fld (key (sc st r c))) (zip refs cands)))))
   \<and> (length refs = length cands \<and> refs \<noteq> []
        \<and> (\<forall>(r, c)\<in>set (zip refs cands). r = c \<and> 2 \<le> length (tokenize lower stem st r)) \<longrightarrow>
        compute_rouge (rouge_scorer lower stem) refs cands st = Inr ones)
   \<and> (length (tokenize lower stem st t) < 2 \<longrightarrow>
        (\<exists>R. compute_rouge (rouge_scorer lower stem) [t] [t] st = Inr R
           \<and> rouge2 R = \<lparr>precision = 0, recall = 0, fmeasure = 0\<rparr>))"
proof (intro conjI impI)
  show "compute_rouge sc refs cands st = Inl ValueError \<longleftrightarrow> length refs \<noteq> length cands"
  proof (cases "length refs = length cands")
    case False
    then show ?thesis by (simp add: compute_rouge_def)
  next
    case True
    show ?thesis
    proof (cases "refs = []")
      case True
      with \<open>length refs = length cands\<close> show ?thesis
        by (simp add: compute_rouge_def div_score_zero bind_err_def)
    next
      case False
      show ?thesis using True by (simp add: compute_rouge_pos[OF True False])
    qed
  qed
next
  show "compute_rouge sc refs cands st = Inl ZeroDivisionError \<longleftrightarrow> refs = [] \<and> cands = []"
  proof (cases "length refs = length cands")
    case False
    then show ?thesis by (auto simp: compute_rouge_def)
  next
    case True
    show ?thesis
    proof (cases "refs = []")
      case True
      with \<open>length refs = length cands\<close> show ?thesis
        by (simp add: compute_rouge_def div_score_zero bind_err_def)
    next
      case False
      show ?thesis using False by (simp add: compute_rouge_pos[OF True False])
    qed
  qed
next
  assume "length refs = length cands \<and> refs \<noteq> []"
  then show "\<exists>R. compute_rouge sc refs cands st = Inr R \<and>
           (\<forall>key\<in>{rouge1, rouge2, rougeL}. \<forall>fld\<in>{precision, recall, fmeasure}.
              fld (key R) = mean (map (\<lambda>(r, c). fld (key (sc st r c))) (zip refs cands)))"
    by (simp add: compute_rouge_pos)
next
  let ?sc = "rouge_scorer lower stem"
  assume a: "length refs = length cands \<and> refs \<noteq> []
     \<and> (\<forall>(r, c)\<in>set (zip refs cands). r = c \<and> 2 \<le> length (tokenize lower stem st r))"
  then have ne: "zip refs cands \<noteq> []" by (cases refs; cases cands) auto
  have all: "\<forall>(r, c)\<in>set (zip refs cands). ?sc st r c = ones"
    using a rouge_scorer_same[of lower stem st] by auto
  have one: "\<forall>p\<in>set (zip refs cands). (case p of (r, c) \<Rightarrow> fld (key (?sc st r c))) = fld (key ones)"
    for fld :: "Score \<Rightarrow> real" and key
    using all by auto
  have m: "mean (map (\<lambda>(r, c). fld (key (?sc st r c))) (zip refs cands)) = 1"
    if "fld (key ones) = 1" for fld :: "Score \<Rightarrow> real" and key
    using mean_const[OF ne, of "\<lambda>(r, c). fld (key (?sc st r c))"] one[of fld key] that by simp
  show "compute_rouge ?sc refs cands st = Inr ones"
    using a by (simp add: compute_rouge_pos m ones_def Let_def)
next
  assume "length (tokenize lower stem st t) < 2"
  then show "\<exists>R. compute_rouge (rouge_scorer lower stem) [t] [t] st = Inr R
           \<and> rouge2 R = \<lparr>precision = 0, recall = 0, fmeasure = 0\<rparr>"
    using rouge2_short[of lower stem st t] by (simp add: compute_rouge_single zero_score_def)
qed

theorem compute_rouge_mean_witness:
  "length [ascii ''the cat sat on the mat''] = length [ascii ''the cat sat on the mat'']
   \<and> 2 \<le> length (tokenize ascii_lower no_stem True (ascii ''the cat sat on the mat''))
   \<and> compute_rouge (rouge_scorer ascii_lower no_stem) [ascii ''the cat sat on the mat'']
        [ascii ''the cat sat on the mat''] True = Inr ones
   \<and> length (tokenize ascii_lower no_stem True (ascii ''cat'')) < 2
   \<and> isl (compute_rouge (rouge_scorer ascii_lower no_stem) [ascii ''a'', ascii ''b''] [ascii ''a''] True)"
proof -
  note t = compute_rouge_mean[where lower = ascii_lower and stem = no_stem and st = True
      and refs = "[ascii ''the cat sat on the mat'']" and cands = "[ascii ''the cat sat on the mat'']"
      and t = "ascii ''cat''"]
  have len: "2 \<le> length (tokenize ascii_lower no_stem True (ascii ''the cat sat on the mat''))"
    by (simp add: tokenize_mat)
  have short: "length (tokenize ascii_lower no_stem True (ascii ''cat'')) < 2"
    by (simp add: tokenize_cat)
  have "compute_rouge (rouge_scorer ascii_lower no_stem) [ascii ''the cat sat on the mat'']
        [ascii ''the cat sat on the mat''] True = Inr ones"
    using t[THEN conjunct2, THEN conjunct2, THEN conjunct2, THEN conjunct1] len by simp
  moreover have "isl (compute_rouge (rouge_scorer ascii_lower no_stem) [ascii ''a'', ascii ''b''] [ascii ''a''] True)"
    by (simp add: compute_rouge_def)
  ultimately show ?thesis using len short by simp
qed

theorem compute_rouge_counterexample:
  "length ([] :: pystr list) = length ([] :: pystr list)
   \<and> compute_rouge (rouge_scorer ascii_lower no_stem) [] [] True = Inl ZeroDivisionError
   \<and> compute_rouge (rouge_scorer ascii_lower no_stem) [ascii ''cat''] [ascii ''cat''] True
       = Inr \<lparr>rouge1 = \<lparr>precision = 1, recall = 1, fmeasure = 1\<rparr>,
              rouge2 = \<lparr>precision = 0, recall = 0, fmeasure = 0\<rparr>,
              rougeL = \<lparr>precision = 1, recall = 1, fmeasure = 1\<rparr>\<rparr>"
proof -
  have "length (tokenize ascii_lower no_stem True (ascii ''cat'')) = 1"
    by (simp add: tokenize_cat)
  then have "rouge_scorer ascii_lower no_stem True (ascii ''cat'') (ascii ''cat'')
      = \<lparr>rouge1 = \<lparr>precision = 1, recall = 1, fmeasure = 1\<rparr>,
         rouge2 = \<lparr>precision = 0, recall = 0, fmeasure = 0\<rparr>,
         rougeL = \<lparr>precision = 1, recall = 1, fmeasure = 1\<rparr>\<rparr>"
    by (simp add: rouge_scorer_single zero_score_def)
  then have cat: "compute_rouge (rouge_scorer ascii_lower no_stem) [ascii ''cat''] [ascii ''cat''] True
       = Inr \<lparr>rouge1 = \<lparr>precision = 1, recall = 1, fmeasure = 1\<rparr>,
              rouge2 = \<lparr>precision = 0, recall = 0, fmeasure = 0\<rparr>,
              rougeL = \<lparr>precision = 1, recall = 1, fmeasure = 1\<rparr>\<rparr>"
    by (simp only: compute_rouge_single)
  have "compute_rouge (rouge_scorer ascii_lower no_stem) [] [] True = Inl ZeroDivisionError"
    by (simp add: compute_rouge_def div_score_zero bind_err_def)
  with cat show ?thesis
    by simp
qed

text \<open>
  C10. Two empty collections pass the length check, and the first division of the
  averaging loop then divides by \<open>n = 0\<close>: \<open>compute_rouge\<close> fails with
  \<open>ZeroDivisionError\<close> and returns no result.
\<close>

theorem compute_rouge_empty_batch:
  "compute_rouge rouge_score [] [] use_stemmer = Inl ZeroDivisionError"
  by (simp add: compute_rouge_def div_score_zero bind_err_def)

section \<open>The chunker and the abstractive pipeline\<close>

lemma chunk_loop_terminates:
  assumes "0 \<le> overlap" and "overlap < max_chars"
  shows "\<exists>chs. chunk_loop text max_chars overlap start acc = Some chs \<and>
               length chs \<le> length acc + nat (int (length text) - start)"
proof (induction "nat (int (length text) - start)" arbitrary: start acc rule: less_induct)
  case less
  show ?case
  proof (cases "start < int (length text)")
    case False
    then show ?thesis
      by (subst chunk_loop.simps) simp
  next
    case True
    let ?end = "min (int (length text)) (start + max_chars)"
    show ?thesis
    proof (cases "?end = int (length text)")
      case e: True
      then show ?thesis
        using True by (subst chunk_loop.simps) (simp add: Let_def)
    next
      case e: False
      then have end_eq: "?end = start + max_chars" and lt: "start + max_chars < int (length text)"
        by (auto simp: min_def split: if_splits)
      let ?start' = "?end - overlap"
      have adv: "start < ?start'" using assms end_eq by simp
      have "nat (int (length text) - ?start') < nat (int (length text) - start)"
        using adv True by simp
      from less[OF this, of "acc @ [py_slice text start ?end]"]
      obtain chs where chs: "chunk_loop text max_chars overlap ?start' (acc @ [py_slice text start ?end]) = Some chs"
        and len: "length chs \<le> length (acc @ [py_slice text start ?end]) + nat (int (length text) - ?start')"
        by blast
      have "chunk_loop text max_chars overlap start acc = Some chs"
        using True e chs lt end_eq by (subst chunk_loop.simps) (simp add: Let_def)
      moreover have "length chs \<le> length acc + nat (int (length text) - start)"
        using len adv True by simp
      ultimately show ?thesis by blast
    qed
  qed
qed

lemma chunk_loop_advance:
  assumes "start < int (length text)" and "start + max_chars < int (length text)"
  shows "chunk_loop text max_chars overlap start acc =
         chunk_loop text max_chars overlap (start + (max_chars - overlap))
           (acc @ [py_slice text start (start + max_chars)])"
proof -
  have "min (int (length text)) (start + max_chars) = start + max_chars"
    using assms by simp
  moreover have e: "start + (max_chars - overlap) = start + max_chars - overlap" by simp
  ultimately show ?thesis
    unfolding e using assms by (subst chunk_loop.simps) (simp add: Let_def)
qed

lemma chunk_loop_last:
  assumes "start < int (length text)" and "int (length text) \<le> start + max_chars"
  shows "chunk_loop text max_chars overlap start acc =
         Some (acc @ [py_slice text start (int (length text))])"
  using assms by (subst chunk_loop.simps) (simp add: Let_def min_def)

lemma length_sub_ws_runs: "length (sub_ws_runs s) \<le> length s"
proof (induction s rule: sub_ws_runs.induct)
  case 1
  show ?case by simp
next
  case (2 c cs)
  have "length (dropWhile is_space cs) \<le> length cs" by (rule length_dropWhile_le)
  with 2 show ?case by (cases "is_space c") auto
qed

lemma length_py_strip: "length (py_strip s) \<le> length s"
proof -
  have "length (py_strip s) \<le> length (dropWhile is_space s)"
    unfolding py_strip_def using length_dropWhile_le[of is_space "rev (dropWhile is_space s)"] by simp
  also have "\<dots> \<le> length s" by (rule length_dropWhile_le)
  finally show ?thesis .
qed

lemma length_basic_clean_le: "length (basic_clean t) \<le> length t"
  unfolding basic_clean_def normalize_whitespace_def
  using length_py_strip[of "sub_ws_runs (map (\<lambda>c. if is_ctrl c then 32 else c) t)"]
    length_sub_ws_runs[of "map (\<lambda>c. if is_ctrl c then 32 else c) t"]
  by simp

text \<open>
  C9. With \<open>0 \<le> overlap < max_chars\<close> the chunker returns on every text: an iteration
  whose window reaches the end of the text produces the last chunk and stops, any other
  iteration moves \<open>start\<close> forward by exactly \<open>max_chars - overlap > 0\<close>, and the number
  of chunks is at most the length of the text (one chunk for a text that fits).
\<close>

theorem chunk_text_terminates:
  assumes "0 \<le> overlap" and "overlap < max_chars"
  shows "(\<exists>chs. chunk_text text max_chars overlap = Some chs \<and> length chs \<le> max 1 (length text))
    \<and> (\<forall>start acc. start < int (length text) \<and> int (length text) \<le> start + max_chars \<longrightarrow>
          chunk_loop text max_chars overlap start acc =
            Some (acc @ [py_slice text start (int (length text))]))
    \<and> (\<forall>start acc. start < int (length text) \<and> start + max_chars < int (length text) \<longrightarrow>
          chunk_loop text max_chars overlap start acc =
            chunk_loop text max_chars overlap (start + (max_chars - overlap))
              (acc @ [py_slice text start (start + max_chars)]))
    \<and> 0 < max_chars - overlap"
proof (intro conjI allI impI)
  show "\<exists>chs. chunk_text text max_chars overlap = Some chs \<and> length chs \<le> max 1 (length text)"
  proof (cases "int (length text) \<le> max_chars")
    case True
    then show ?thesis by (simp add: chunk_text_def)
  next
    case False
    from chunk_loop_terminates[OF assms, of "text" 0 "[]"]
    obtain chs where "chunk_loop text max_chars overlap 0 [] = Some chs"
      and "length chs \<le> length text" by auto
    with False show ?thesis by (auto simp: chunk_text_def)
  qed
next
  fix start acc
  assume "start < int (length text) \<and> int (length text) \<le> start + max_chars"
  then show "chunk_loop text max_chars overlap start acc =
            Some (acc @ [py_slice text start (int (length text))])"
    by (simp add: chunk_loop_last)
next
  fix start acc
  assume "start < int (length text) \<and> start + max_chars < int (length text)"
  then show "chunk_loop text max_chars overlap start acc =
            chunk_loop text max_chars overlap (start + (max_chars - overlap))
              (acc @ [py_slice text start (start + max_chars)])"
    using chunk_loop_advance[of start "text" max_chars overlap acc] by blast
next
  show "0 < max_chars - overlap" using assms by simp
qed

theorem chunk_text_terminates_witness:
  "(0::int) \<le> 1 \<and> (1::int) < 4 \<and>
   chunk_text (ascii ''abcdefghij'') 4 1 = Some [ascii ''abcd'', ascii ''defg'', ascii ''ghij'']"
proof -
  let ?t = "ascii ''abcdefghij''"
  have h: "(0::int) \<le> 1" "(1::int) < 4" by simp_all
  note t = chunk_text_terminates[OF h, of ?t]
  have len: "int (length ?t) = 10" by (simp add: ascii_def)
  from t have adv: "\<And>start acc. start < 10 \<Longrightarrow> start + 4 < 10 \<Longrightarrow>
      chunk_loop ?t 4 1 start acc = chunk_loop ?t 4 1 (start + (4 - 1)) (acc @ [py_slice ?t start (start + 4)])"
    unfolding len by blast
  from t have fin: "\<And>start acc. start < 10 \<Longrightarrow> 10 \<le> start + 4 \<Longrightarrow>
      chunk_loop ?t 4 1 start acc = Some (acc @ [py_slice ?t start 10])"
    unfolding len by blast
  have "chunk_text ?t 4 1 = chunk_loop ?t 4 1 0 []"
    using len by (simp add: chunk_text_def)
  also have "\<dots> = chunk_loop ?t 4 1 3 [py_slice ?t 0 4]"
    using adv[of 0 "[]"] by simp
  also have "\<dots> = chunk_loop ?t 4 1 6 [py_slice ?t 0 4, py_slice ?t 3 7]"
    using adv[of 3 "[py_slice ?t 0 4]"] by simp
  also have "\<dots> = Some [py_slice ?t 0 4, py_slice ?t 3 7, py_slice ?t 6 10]"
    using fin[of 6 "[py_slice ?t 0 4, py_slice ?t 3 7]"] by simp
  also have "\<dots> = Some [ascii ''abcd'', ascii ''defg'', ascii ''ghij'']"
    by (simp add: py_slice_def ascii_def)
  finally show ?thesis by simp
qed

lemma summarize_chunks_single:
  "summarize_chunks f mx mn [chunk] ([], []) = ([f chunk mx mn], [chunk])"
  by simp

text \<open>
  C8. A text shorter than \<open>max_chars\<close> is returned by the chunker as its only chunk. The
  summarizer chunks the cleaned text with the defaults (2000, 200), so for a cleaned text
  shorter than 2000 characters it calls the generative model exactly once, on the cleaned
  text, and the final summary is that call's summary.
\<close>

theorem short_text_single_call:
  "(int (length text) < max_chars \<longrightarrow> chunk_text text max_chars overlap = Some [text])
   \<and> (length (basic_clean raw) < 2000 \<longrightarrow>
        abstractive_summary f raw max_length min_length =
          Some (\<lparr>summary = f (basic_clean raw) max_length min_length,
                 chunks = [basic_clean raw],
                 chunk_summaries = [f (basic_clean raw) max_length min_length]\<rparr>,
                [basic_clean raw]))"
  by (simp add: chunk_text_def abstractive_summary_def Let_def)

theorem short_text_single_call_witness:
  "int (length (ascii ''Hi  there'')) < 2000
   \<and> chunk_text (ascii ''Hi  there'') 2000 200 = Some [ascii ''Hi  there'']
   \<and> length (basic_clean (ascii ''Hi  there'')) < 2000
   \<and> abstractive_summary stub_summarizer (ascii ''Hi  there'') 130 30 =
        Some (\<lparr>summary = stub_summarizer (basic_clean (ascii ''Hi  there'')) 130 30,
               chunks = [basic_clean (ascii ''Hi  there'')],
               chunk_summaries = [stub_summarizer (basic_clean (ascii ''Hi  there'')) 130 30]\<rparr>,
              [basic_clean (ascii ''Hi  there'')])"
proof -
  have a: "int (length (ascii ''Hi  there'')) < 2000"
    by (simp add: ascii_def)
  have b: "length (basic_clean (ascii ''Hi  there'')) < 2000"
    using length_basic_clean_le[of "ascii ''Hi  there''"] by (simp add: ascii_def)
  show ?thesis
    using a b short_text_single_call[of "ascii ''Hi  there''" 2000 200 "ascii ''Hi  there''"
        stub_summarizer 130 30]
    by blast
qed

section \<open>The selector\<close>

lemma py_slice_from_0:
  "py_slice xs 0 j = take (nat (if j < 0 then j + int (length xs) else j)) xs"
  by (auto simp: py_slice_def Let_def min_def max_def)

lemma is_argsort_length: "is_argsort xs idx \<Longrightarrow> length idx = length xs"
  using distinct_card[of idx] by (auto simp: is_argsort_def)

lemma py_getitems_ok:
  "set idx \<subseteq> {0..<length xs} \<Longrightarrow> py_getitems xs idx = Inr (map (\<lambda>i. xs ! i) idx)"
  by (auto simp: py_getitems_def list_all_iff)

text \<open>The indices that \<open>select_sentences\<close> keeps, as the source computes them.\<close>

lemma select_sentences_ok:
  fixes f :: "real list \<Rightarrow> nat list" and ss :: "pystr list" and sc :: "real list" and k :: int
  assumes len: "length sc = length ss"
    and arg: "is_argsort (map uminus sc) (f (map uminus sc))"
  defines "sel \<equiv> sort (py_slice (f (map uminus sc)) 0 (min k (int (length ss))))"
  shows "select_sentences f ss sc k =
           Inr \<lparr>ExtractiveSummaryResult.summary = py_join [32] (map (\<lambda>i. ss ! i) sel),
                selected_sentences = map (\<lambda>i. ss ! i) sel,
                indices = sel,
                scores = map (\<lambda>i. sc ! i) sel\<rparr>"
    and "set sel \<subseteq> {0..<length ss}"
    and "distinct sel"
    and "sorted sel"
    and "length sel = nat (if k < 0 then int (length ss) + k else min k (int (length ss)))"
proof -
  let ?ranked = "f (map uminus sc)"
  have sl: "py_slice ?ranked 0 (min k (int (length ss))) =
        take (nat (if min k (int (length ss)) < 0 then min k (int (length ss)) + int (length ?ranked)
                   else min k (int (length ss)))) ?ranked"
    by (rule py_slice_from_0)
  have lr: "length ?ranked = length ss"
    using is_argsort_length[OF arg] len by simp
  have "set sel \<subseteq> set ?ranked"
    unfolding sel_def sl by (auto dest: in_set_takeD)
  then show sub: "set sel \<subseteq> {0..<length ss}"
    using arg len by (auto simp: is_argsort_def)
  show "distinct sel"
    using arg unfolding sel_def sl by (simp add: is_argsort_def)
  show "sorted sel" by (simp add: sel_def)
  show "length sel = nat (if k < 0 then int (length ss) + k else min k (int (length ss)))"
  proof -
    have "length sel = min (nat (if min k (int (length ss)) < 0 then min k (int (length ss)) + int (length ss)
                   else min k (int (length ss)))) (length ss)"
      unfolding sel_def sl by (simp add: lr)
    also have "\<dots> = nat (if k < 0 then int (length ss) + k else min k (int (length ss)))"
      by (cases "k < 0") (simp_all add: min_def, arith+)
    finally show ?thesis .
  qed
  have g1: "py_getitems ss sel = Inr (map (\<lambda>i. ss ! i) sel)"
    using sub by (rule py_getitems_ok)
  have g2: "py_getitems sc sel = Inr (map (\<lambda>i. sc ! i) sel)"
    using sub len by (simp add: py_getitems_ok)
  show "select_sentences f ss sc k =
           Inr \<lparr>ExtractiveSummaryResult.summary = py_join [32] (map (\<lambda>i. ss ! i) sel),
                selected_sentences = map (\<lambda>i. ss ! i) sel,
                indices = sel,
                scores = map (\<lambda>i. sc ! i) sel\<rparr>"
    using g1 g2 unfolding sel_def by (simp add: select_sentences_def Let_def)
qed

lemma stable_argsort_ok: "is_argsort xs (stable_argsort xs)"
  by (simp add: is_argsort_def stable_argsort_def)

lemma stub_libs_ok: "centroid_ok stub_libs ss" "textrank_ok stub_libs ss"
  by (simp_all add: centroid_ok_def textrank_ok_def stub_libs_def centroid_scores_def
      textrank_scores_def uniform_rank_def build_similarity_matrix_def similarity_with_def
      Let_def stable_argsort_ok)

lemma centroid_result:
  assumes "sentence_split (sent_tokenize L) (basic_clean text) = ss" and "ss \<noteq> []"
  shows "centroid_extractive_summary L text k =
           select_sentences (argsort L) ss (centroid_scores L ss) k"
  using assms by (simp add: centroid_extractive_summary_def Let_def)

lemma textrank_result:
  assumes "sentence_split (sent_tokenize L) (basic_clean text) = ss" and "ss \<noteq> []"
    and "textrank_scores L ss = Inr sc"
  shows "textrank_extractive_summary L text k = select_sentences (argsort L) ss sc k"
  using assms by (simp add: textrank_extractive_summary_def Let_def)

lemma empty_split_results:
  assumes "sentence_split (sent_tokenize L) (basic_clean text) = []"
  shows "centroid_extractive_summary L text k = Inr empty_result"
    and "textrank_extractive_summary L text k = Inr empty_result"
  using assms
  by (simp_all add: centroid_extractive_summary_def textrank_extractive_summary_def Let_def)

lemma demo_chars:
  "\<not> is_space 46" "\<not> is_space 66" "\<not> is_space 67" "\<not> is_space 68" "\<not> is_space 97"
  "\<not> is_space 98" "\<not> is_space 100" "\<not> is_space 101" "\<not> is_space 103" "\<not> is_space 104"
  "\<not> is_space 105" "\<not> is_space 107" "\<not> is_space 109" "\<not> is_space 110" "\<not> is_space 111"
  "\<not> is_space 112" "\<not> is_space 114" "\<not> is_space 115" "\<not> is_space 116" "\<not> is_space 117"
  "\<not> is_space 71"
  "\<not> is_ctrl 46" "\<not> is_ctrl 66" "\<not> is_ctrl 67" "\<not> is_ctrl 68" "\<not> is_ctrl 97"
  "\<not> is_ctrl 98" "\<not> is_ctrl 100" "\<not> is_ctrl 101" "\<not> is_ctrl 103" "\<not> is_ctrl 104"
  "\<not> is_ctrl 105" "\<not> is_ctrl 107" "\<not> is_ctrl 109" "\<not> is_ctrl 110" "\<not> is_ctrl 111"
  "\<not> is_ctrl 112" "\<not> is_ctrl 114" "\<not> is_ctrl 115" "\<not> is_ctrl 116" "\<not> is_ctrl 117"
  "\<not> is_ctrl 71" "\<not> is_ctrl 32" "is_space 32" "is_space 9" "is_space 10" "\<not> is_ctrl 9" "\<not> is_ctrl 10"
  by (simp_all add: is_space_def is_ctrl_def)

lemma demo_three:
  "sentence_split (sent_tokenize stub_libs) (basic_clean (ascii ''Dogs bark. Cats purr. Birds sing.'')) =
     [ascii ''Dogs bark.'', ascii ''Cats purr.'', ascii ''Birds sing.'']"
  by (simp add: basic_clean_def normalize_whitespace_def py_strip_def sentence_split_def
      py_isspace_def stub_libs_def ascii_def demo_chars)

lemma demo_blank:
  "sentence_split (sent_tokenize stub_libs) (basic_clean [32, 9, 10, 32]) = []"
  by (simp add: basic_clean_def normalize_whitespace_def py_strip_def sentence_split_def
      py_isspace_def stub_libs_def demo_chars)

lemma select_sentences_lengths:
  fixes f :: "real list \<Rightarrow> nat list" and ss :: "pystr list" and sc :: "real list" and k :: int
  assumes "length sc = length ss" and "is_argsort (map uminus sc) (f (map uminus sc))"
  defines "n \<equiv> nat (if k < 0 then int (length ss) + k else min k (int (length ss)))"
  shows "\<exists>r. select_sentences f ss sc k = Inr r \<and> length (indices r) = n \<and>
             length (scores r) = n \<and> length (selected_sentences r) = n \<and>
             (n = 0 \<longrightarrow> r = empty_result)"
proof -
  let ?sel = "sort (py_slice (f (map uminus sc)) 0 (min k (int (length ss))))"
  have r: "select_sentences f ss sc k =
           Inr \<lparr>ExtractiveSummaryResult.summary = py_join [32] (map (\<lambda>i. ss ! i) ?sel),
                selected_sentences = map (\<lambda>i. ss ! i) ?sel,
                indices = ?sel,
                scores = map (\<lambda>i. sc ! i) ?sel\<rparr>"
    using assms(1,2) by (rule select_sentences_ok(1))
  have l: "length ?sel = n"
    unfolding n_def using assms(1,2) by (rule select_sentences_ok(5))
  have "n = 0 \<Longrightarrow> ?sel = []" using l by simp
  then show ?thesis
    unfolding r using l by (auto simp: empty_result_def)
qed

lemma centroid_lengths:
  assumes "sentence_split (sent_tokenize L) (basic_clean text) = ss" and "ss \<noteq> []"
    and "centroid_ok L ss"
  shows "\<exists>r. centroid_extractive_summary L text k = Inr r \<and>
             length (indices r) = nat (if k < 0 then int (length ss) + k else min k (int (length ss))) \<and>
             length (scores r) = nat (if k < 0 then int (length ss) + k else min k (int (length ss))) \<and>
             length (selected_sentences r) = nat (if k < 0 then int (length ss) + k else min k (int (length ss))) \<and>
             (nat (if k < 0 then int (length ss) + k else min k (int (length ss))) = 0 \<longrightarrow> r = empty_result)"
  unfolding centroid_result[OF assms(1,2)]
  using assms(3) by (intro select_sentences_lengths) (simp_all add: centroid_ok_def Let_def)

lemma textrank_lengths:
  assumes "sentence_split (sent_tokenize L) (basic_clean text) = ss" and "ss \<noteq> []"
    and "textrank_ok L ss"
  shows "\<exists>r. textrank_extractive_summary L text k = Inr r \<and>
             length (indices r) = nat (if k < 0 then int (length ss) + k else min k (int (length ss))) \<and>
             length (scores r) = nat (if k < 0 then int (length ss) + k else min k (int (length ss))) \<and>
             length (selected_sentences r) = nat (if k < 0 then int (length ss) + k else min k (int (length ss))) \<and>
             (nat (if k < 0 then int (length ss) + k else min k (int (length ss))) = 0 \<longrightarrow> r = empty_result)"
proof -
  from assms(3) obtain sc where sc: "textrank_scores L ss = Inr sc" "length sc = length ss"
    "is_argsort (map uminus sc) (argsort L (map uminus sc))"
    by (auto simp: textrank_ok_def split: sum.splits)
  show ?thesis
    unfolding textrank_result[OF assms(1,2) sc(1)]
    using sc(2,3) by (intro select_sentences_lengths)
qed

lemma all_sep_clean: "\<forall>c\<in>set t. is_space c \<or> is_ctrl c \<Longrightarrow> basic_clean t = []"
proof -
  assume a: "\<forall>c\<in>set t. is_space c \<or> is_ctrl c"
  then have "words_of t = []"
    by (induction t rule: words_of.induct) (auto simp: is_sep_def)
  then show ?thesis by (simp add: basic_clean_words)
qed

lemma sentence_split_Nil: "tok text = [] \<Longrightarrow> sentence_split tok text = []"
  by (simp add: sentence_split_def)

text \<open>
  C6. When the sentence splitter yields no sentence, both summarizers return the empty
  result (empty summary, no selected sentences, no indices, no scores) and raise nothing.
  That is the case in particular for a text made of whitespace and control characters
  only, which normalizes to the empty string, on which the tokenizer finds no sentence.
\<close>

theorem empty_input_empty_result:
  "(sentence_split (sent_tokenize L) (basic_clean text) = [] \<longrightarrow>
      centroid_extractive_summary L text k =
        Inr \<lparr>ExtractiveSummaryResult.summary = [], selected_sentences = [], indices = [], scores = []\<rparr>
      \<and> textrank_extractive_summary L text k =
        Inr \<lparr>ExtractiveSummaryResult.summary = [], selected_sentences = [], indices = [], scores = []\<rparr>)
   \<and> ((\<forall>c\<in>set text. is_space c \<or> is_ctrl c) \<and> sent_tokenize L [] = [] \<longrightarrow>
      basic_clean text = []
      \<and> centroid_extractive_summary L text k =
        Inr \<lparr>ExtractiveSummaryResult.summary = [], selected_sentences = [], indices = [], scores = []\<rparr>
      \<and> textrank_extractive_summary L text k =
        Inr \<lparr>ExtractiveSummaryResult.summary = [], selected_sentences = [], indices = [], scores = []\<rparr>)"
proof (intro conjI impI)
  assume a: "(\<forall>c\<in>set text. is_space c \<or> is_ctrl c) \<and> sent_tokenize L [] = []"
  then show c: "basic_clean text = []" by (simp add: all_sep_clean)
  have "sentence_split (sent_tokenize L) (basic_clean text) = []"
    using a c by (simp add: sentence_split_Nil)
  then show "centroid_extractive_summary L text k =
        Inr \<lparr>ExtractiveSummaryResult.summary = [], selected_sentences = [], indices = [], scores = []\<rparr>"
    and "textrank_extractive_summary L text k =
        Inr \<lparr>ExtractiveSummaryResult.summary = [], selected_sentences = [], indices = [], scores = []\<rparr>"
    using empty_split_results[of L "text" k] by (simp_all add: empty_result_def)
next
  assume "sentence_split (sent_tokenize L) (basic_clean text) = []"
  then show "centroid_extractive_summary L text k =
        Inr \<lparr>ExtractiveSummaryResult.summary = [], selected_sentences = [], indices = [], scores = []\<rparr>"
    and "textrank_extractive_summary L text k =
        Inr \<lparr>ExtractiveSummaryResult.summary = [], selected_sentences = [], indices = [], scores = []\<rparr>"
    using empty_split_results[of L "text" k] by (simp_all add: empty_result_def)
qed

theorem empty_input_empty_result_witness:
  "is_space 32 \<and> is_space 9 \<and> is_space 10 \<and> sent_tokenize stub_libs [] = []
   \<and> basic_clean [32, 9, 10, 32] = []
   \<and> sentence_split (sent_tokenize stub_libs) (basic_clean [32, 9, 10, 32]) = []
   \<and> centroid_extractive_summary stub_libs [32, 9, 10, 32] 3 =
        Inr \<lparr>ExtractiveSummaryResult.summary = [], selected_sentences = [], indices = [], scores = []\<rparr>
   \<and> textrank_extractive_summary stub_libs [32, 9, 10, 32] 3 =
        Inr \<lparr>ExtractiveSummaryResult.summary = [], selected_sentences = [], indices = [], scores = []\<rparr>"
proof -
  have a: "\<forall>c\<in>set [32, 9, 10, 32]. is_space c \<or> is_ctrl c"
    by (simp add: demo_chars)
  have b: "sent_tokenize stub_libs [] = []"
    by (simp add: stub_libs_def)
  from a b empty_input_empty_result[of stub_libs "[32, 9, 10, 32]" 3]
  have "basic_clean [32, 9, 10, 32] = []
      \<and> centroid_extractive_summary stub_libs [32, 9, 10, 32] 3 =
        Inr \<lparr>ExtractiveSummaryResult.summary = [], selected_sentences = [], indices = [], scores = []\<rparr>
      \<and> textrank_extractive_summary stub_libs [32, 9, 10, 32] 3 =
        Inr \<lparr>ExtractiveSummaryResult.summary = [], selected_sentences = [], indices = [], scores = []\<rparr>"
    by blast
  then show ?thesis
    using b demo_blank demo_chars(44,45,46) by (intro conjI) blast+
qed

lemma textrank_ok_iff:
  "textrank_ok L ss \<longleftrightarrow> textrank_contract L ss \<and> \<not> isl (textrank_scores L ss)"
  by (cases "textrank_scores L ss") (simp_all add: textrank_ok_def textrank_contract_def)

lemma textrank_raises:
  assumes "sentence_split (sent_tokenize L) (basic_clean text) = ss" and "ss \<noteq> []"
    and "isl (textrank_scores L ss)"
  shows "textrank_extractive_summary L text k = Inl (projl (textrank_scores L ss))"
  using assms by (cases "textrank_scores L ss") (simp_all add: textrank_extractive_summary_def Let_def)

lemma failing_libs_ok:
  "centroid_ok (stub_libs\<lparr>pagerank := failing_rank\<rparr>) ss"
  "textrank_contract (stub_libs\<lparr>pagerank := failing_rank\<rparr>) ss"
  "textrank_scores (stub_libs\<lparr>pagerank := failing_rank\<rparr>) ss = Inl PowerIterationFailedConvergence"
  by (simp_all add: centroid_ok_def textrank_contract_def stub_libs_def centroid_scores_def
      textrank_scores_def failing_rank_def Let_def stable_argsort_ok)

lemma failing_split:
  "sentence_split (sent_tokenize (stub_libs\<lparr>pagerank := failing_rank\<rparr>))
     (basic_clean (ascii ''Dogs bark. Cats purr. Birds sing.'')) =
     [ascii ''Dogs bark.'', ascii ''Cats purr.'', ascii ''Birds sing.'']"
  using demo_three by (simp add: stub_libs_def)

text \<open>
  C1 as amended. With \<open>N\<close> split sentences, libraries that give one score per sentence
  and an argsort that meets its contract, the centroid summarizer returns a result whose
  indices, scores and selected sentences all have length \<open>min(k, N)\<close> when \<open>k \<ge> 1\<close>, and
  the empty result when \<open>k = 0\<close> or \<open>N = 0\<close>. The textrank summarizer does the same whenever
  \<open>N = 0\<close> or \<open>nx.pagerank\<close> returns; when \<open>N \<ge> 1\<close> and \<open>nx.pagerank\<close> raises, it raises
  that error for every \<open>k\<close>, also for \<open>k = 0\<close>, because page rank runs before the slice.
  The last conjunct of each part records what the code does for \<open>k < 0\<close>: the slice
  \<open>ranked_idx[:k]\<close> drops the last \<open>-k\<close> ranked indices, so the three lists have length
  \<open>max(0, N + k)\<close>.
\<close>

theorem summary_lengths:
  assumes "sentence_split (sent_tokenize L) (basic_clean text) = ss"
    and "ss \<noteq> [] \<longrightarrow> centroid_ok L ss \<and> textrank_contract L ss"
  shows "(\<exists>rc. centroid_extractive_summary L text k = Inr rc
            \<and> (1 \<le> k \<longrightarrow> length (indices rc) = nat (min k (int (length ss)))
                          \<and> length (scores rc) = nat (min k (int (length ss)))
                          \<and> length (selected_sentences rc) = nat (min k (int (length ss))))
            \<and> (k = 0 \<or> ss = [] \<longrightarrow> rc = empty_result)
            \<and> (k < 0 \<longrightarrow> length (indices rc) = nat (int (length ss) + k)
                          \<and> length (scores rc) = nat (int (length ss) + k)
                          \<and> length (selected_sentences rc) = nat (int (length ss) + k)))
      \<and> (ss = [] \<or> \<not> isl (textrank_scores L ss) \<longrightarrow>
          (\<exists>rt. textrank_extractive_summary L text k = Inr rt
            \<and> (1 \<le> k \<longrightarrow> length (indices rt) = nat (min k (int (length ss)))
                          \<and> length (scores rt) = nat (min k (int (length ss)))
                          \<and> length (selected_sentences rt) = nat (min k (int (length ss))))
            \<and> (k = 0 \<or> ss = [] \<longrightarrow> rt = empty_result)
            \<and> (k < 0 \<longrightarrow> length (indices rt) = nat (int (length ss) + k)
                          \<and> length (scores rt) = nat (int (length ss) + k)
                          \<and> length (selected_sentences rt) = nat (int (length ss) + k))))
      \<and> (ss \<noteq> [] \<and> isl (textrank_scores L ss) \<longrightarrow>
          textrank_extractive_summary L text k = Inl (projl (textrank_scores L ss)))"
proof (cases "ss = []")
  case True
  have "centroid_extractive_summary L text k = Inr empty_result"
    and "textrank_extractive_summary L text k = Inr empty_result"
    using empty_split_results[of L "text" k] assms(1) True by simp_all
  moreover have "length (indices empty_result) = 0" "length (scores empty_result) = 0"
    "length (selected_sentences empty_result) = 0"
    by (simp_all add: empty_result_def)
  ultimately show ?thesis
    using True by simp
next
  case False
  let ?n = "nat (if k < 0 then int (length ss) + k else min k (int (length ss)))"
  have ok: "centroid_ok L ss" "textrank_contract L ss"
    using assms(2) False by simp_all
  have n1: "1 \<le> k \<Longrightarrow> ?n = nat (min k (int (length ss)))" by simp
  have n2: "k = 0 \<Longrightarrow> ?n = 0" by simp
  have n3: "k < 0 \<Longrightarrow> ?n = nat (int (length ss) + k)" by simp
  have Q: "(1 \<le> k \<longrightarrow> length (indices r) = nat (min k (int (length ss)))
                          \<and> length (scores r) = nat (min k (int (length ss)))
                          \<and> length (selected_sentences r) = nat (min k (int (length ss))))
              \<and> (k = 0 \<or> ss = [] \<longrightarrow> r = empty_result)
              \<and> (k < 0 \<longrightarrow> length (indices r) = nat (int (length ss) + k)
                          \<and> length (scores r) = nat (int (length ss) + k)
                          \<and> length (selected_sentences r) = nat (int (length ss) + k))"
    if "length (indices r) = ?n" "length (scores r) = ?n" "length (selected_sentences r) = ?n"
      "?n = 0 \<longrightarrow> r = empty_result" for r
  proof (intro conjI impI)
    assume "1 \<le> k"
    from n1[OF this] that(1,2,3)
    show "length (indices r) = nat (min k (int (length ss)))"
      "length (scores r) = nat (min k (int (length ss)))"
      "length (selected_sentences r) = nat (min k (int (length ss)))"
      by (simp_all only:)
  next
    assume "k = 0 \<or> ss = []"
    then have "k = 0" using False by simp
    from n2[OF this] that(4) show "r = empty_result" by (simp only:)
  next
    assume "k < 0"
    from n3[OF this] that(1,2,3)
    show "length (indices r) = nat (int (length ss) + k)"
      "length (scores r) = nat (int (length ss) + k)"
      "length (selected_sentences r) = nat (int (length ss) + k)"
      by (simp_all only:)
  qed
  have "\<exists>r. centroid_extractive_summary L text k = Inr r \<and> length (indices r) = ?n \<and>
            length (scores r) = ?n \<and> length (selected_sentences r) = ?n \<and>
            (?n = 0 \<longrightarrow> r = empty_result)"
    using assms(1) False ok(1) by (rule centroid_lengths)
  then obtain rc where rc: "centroid_extractive_summary L text k = Inr rc"
    and lc: "length (indices rc) = ?n" "length (scores rc) = ?n" "length (selected_sentences rc) = ?n"
    and ec: "?n = 0 \<longrightarrow> rc = empty_result"
    by (elim exE conjE)
  have A: "\<exists>rc. centroid_extractive_summary L text k = Inr rc
            \<and> (1 \<le> k \<longrightarrow> length (indices rc) = nat (min k (int (length ss)))
                          \<and> length (scores rc) = nat (min k (int (length ss)))
                          \<and> length (selected_sentences rc) = nat (min k (int (length ss))))
            \<and> (k = 0 \<or> ss = [] \<longrightarrow> rc = empty_result)
            \<and> (k < 0 \<longrightarrow> length (indices rc) = nat (int (length ss) + k)
                          \<and> length (scores rc) = nat (int (length ss) + k)
                          \<and> length (selected_sentences rc) = nat (int (length ss) + k))"
    using rc Q[OF lc ec] by (intro exI[of _ rc]) blast
  have B: "\<exists>rt. textrank_extractive_summary L text k = Inr rt
            \<and> (1 \<le> k \<longrightarrow> length (indices rt) = nat (min k (int (length ss)))
                          \<and> length (scores rt) = nat (min k (int (length ss)))
                          \<and> length (selected_sentences rt) = nat (min k (int (length ss))))
            \<and> (k = 0 \<or> ss = [] \<longrightarrow> rt = empty_result)
            \<and> (k < 0 \<longrightarrow> length (indices rt) = nat (int (length ss) + k)
                          \<and> length (scores rt) = nat (int (length ss) + k)
                          \<and> length (selected_sentences rt) = nat (int (length ss) + k))"
    if "ss = [] \<or> \<not> isl (textrank_scores L ss)"
  proof -
    have "textrank_ok L ss"
      using that False ok(2) by (simp add: textrank_ok_iff)
    with assms(1) False
    have "\<exists>r. textrank_extractive_summary L text k = Inr r \<and> length (indices r) = ?n \<and>
            length (scores r) = ?n \<and> length (selected_sentences r) = ?n \<and>
            (?n = 0 \<longrightarrow> r = empty_result)"
      by (rule textrank_lengths)
    then obtain rt where rt: "textrank_extractive_summary L text k = Inr rt"
      and lt: "length (indices rt) = ?n" "length (scores rt) = ?n" "length (selected_sentences rt) = ?n"
      and et: "?n = 0 \<longrightarrow> rt = empty_result"
      by (elim exE conjE)
    show ?thesis
      using rt Q[OF lt et] by (intro exI[of _ rt]) blast
  qed
  have C: "textrank_extractive_summary L text k = Inl (projl (textrank_scores L ss))"
    if "ss \<noteq> [] \<and> isl (textrank_scores L ss)"
    using assms(1) that by (intro textrank_raises) simp_all
  from A B C show ?thesis by blast
qed

theorem summary_lengths_witness:
  "sentence_split (sent_tokenize stub_libs) (basic_clean (ascii ''Dogs bark. Cats purr. Birds sing.'')) =
     [ascii ''Dogs bark.'', ascii ''Cats purr.'', ascii ''Birds sing.'']
   \<and> centroid_ok stub_libs [ascii ''Dogs bark.'', ascii ''Cats purr.'', ascii ''Birds sing.'']
   \<and> textrank_contract stub_libs [ascii ''Dogs bark.'', ascii ''Cats purr.'', ascii ''Birds sing.'']
   \<and> (\<exists>rc. centroid_extractive_summary stub_libs (ascii ''Dogs bark. Cats purr. Birds sing.'') 2 = Inr rc
          \<and> length (indices rc) = 2 \<and> length (scores rc) = 2 \<and> length (selected_sentences rc) = 2)
   \<and> (\<exists>rt. textrank_extractive_summary stub_libs (ascii ''Dogs bark. Cats purr. Birds sing.'') 2 = Inr rt
          \<and> length (indices rt) = 2 \<and> length (scores rt) = 2 \<and> length (selected_sentences rt) = 2)
   \<and> centroid_ok (stub_libs\<lparr>pagerank := failing_rank\<rparr>)
         [ascii ''Dogs bark.'', ascii ''Cats purr.'', ascii ''Birds sing.'']
   \<and> textrank_contract (stub_libs\<lparr>pagerank := failing_rank\<rparr>)
         [ascii ''Dogs bark.'', ascii ''Cats purr.'', ascii ''Birds sing.'']
   \<and> textrank_extractive_summary (stub_libs\<lparr>pagerank := failing_rank\<rparr>)
         (ascii ''Dogs bark. Cats purr. Birds sing.'') 0 = Inl PowerIterationFailedConvergence"
proof -
  let ?ss = "[ascii ''Dogs bark.'', ascii ''Cats purr.'', ascii ''Birds sing.'']"
  let ?t = "ascii ''Dogs bark. Cats purr. Birds sing.''"
  let ?F = "stub_libs\<lparr>pagerank := failing_rank\<rparr>"
  have ok: "centroid_ok stub_libs ?ss" "textrank_contract stub_libs ?ss"
    and ret: "\<not> isl (textrank_scores stub_libs ?ss)"
    using stub_libs_ok[of ?ss] by (simp_all add: textrank_ok_iff)
  then have h: "?ss \<noteq> [] \<longrightarrow> centroid_ok stub_libs ?ss \<and> textrank_contract stub_libs ?ss"
    by simp
  note t = summary_lengths[OF demo_three h, of 2]
  have n: "nat (min 2 (int (length ?ss))) = 2" by simp
  note tA = t[THEN conjunct1]
  have pre: "?ss = [] \<or> \<not> isl (textrank_scores stub_libs ?ss)"
    using ret by simp
  note tB = t[THEN conjunct2, THEN conjunct1, THEN mp, OF pre]
  from tA obtain rc where rc: "centroid_extractive_summary stub_libs ?t 2 = Inr rc"
    and qc: "(1::int) \<le> 2 \<longrightarrow> length (indices rc) = nat (min 2 (int (length ?ss)))
                          \<and> length (scores rc) = nat (min 2 (int (length ?ss)))
                          \<and> length (selected_sentences rc) = nat (min 2 (int (length ?ss)))"
    by (elim exE conjE)
  from qc have c: "length (indices rc) = 2 \<and> length (scores rc) = 2 \<and> length (selected_sentences rc) = 2"
    unfolding n by simp
  from tB obtain rt where rt: "textrank_extractive_summary stub_libs ?t 2 = Inr rt"
    and qt: "(1::int) \<le> 2 \<longrightarrow> length (indices rt) = nat (min 2 (int (length ?ss)))
                          \<and> length (scores rt) = nat (min 2 (int (length ?ss)))
                          \<and> length (selected_sentences rt) = nat (min 2 (int (length ?ss)))"
    by (elim exE conjE)
  from qt have r: "length (indices rt) = 2 \<and> length (scores rt) = 2 \<and> length (selected_sentences rt) = 2"
    unfolding n by simp
  have hf: "?ss \<noteq> [] \<longrightarrow> centroid_ok ?F ?ss \<and> textrank_contract ?F ?ss"
    by (simp add: failing_libs_ok)
  have fl: "?ss \<noteq> [] \<and> isl (textrank_scores ?F ?ss)"
    by (simp add: failing_libs_ok(3))
  note tC = summary_lengths[OF failing_split hf, of 0, THEN conjunct2, THEN conjunct2, THEN mp, OF fl]
  have "textrank_extractive_summary ?F ?t 0 = Inl (projl (textrank_scores ?F ?ss))"
    by (rule tC)
  then have f: "textrank_extractive_summary ?F ?t 0 = Inl PowerIterationFailedConvergence"
    by (simp add: failing_libs_ok(3))
  have e1: "\<exists>rc. centroid_extractive_summary stub_libs ?t 2 = Inr rc
          \<and> length (indices rc) = 2 \<and> length (scores rc) = 2 \<and> length (selected_sentences rc) = 2"
    using rc c by blast
  have e2: "\<exists>rt. textrank_extractive_summary stub_libs ?t 2 = Inr rt
          \<and> length (indices rt) = 2 \<and> length (scores rt) = 2 \<and> length (selected_sentences rt) = 2"
    using rt r by blast
  from demo_three ok e1 e2 failing_libs_ok(1,2)[of ?ss] f show ?thesis
    by (intro conjI)
qed

theorem negative_k_counterexample:
  "\<not> isl (centroid_extractive_summary stub_libs (ascii ''Dogs bark. Cats purr. Birds sing.'') (- 1))
   \<and> length (indices (projr (centroid_extractive_summary stub_libs
         (ascii ''Dogs bark. Cats purr. Birds sing.'') (- 1)))) = 2
   \<and> length (scores (projr (centroid_extractive_summary stub_libs
         (ascii ''Dogs bark. Cats purr. Birds sing.'') (- 1)))) = 2
   \<and> length (selected_sentences (projr (centroid_extractive_summary stub_libs
         (ascii ''Dogs bark. Cats purr. Birds sing.'') (- 1)))) = 2
   \<and> \<not> isl (textrank_extractive_summary stub_libs (ascii ''Dogs bark. Cats purr. Birds sing.'') (- 1))
   \<and> length (indices (projr (textrank_extractive_summary stub_libs
         (ascii ''Dogs bark. Cats purr. Birds sing.'') (- 1)))) = 2
   \<and> length (scores (projr (textrank_extractive_summary stub_libs
         (ascii ''Dogs bark. Cats purr. Birds sing.'') (- 1)))) = 2
   \<and> length (selected_sentences (projr (textrank_extractive_summary stub_libs
         (ascii ''Dogs bark. Cats purr. Birds sing.'') (- 1)))) = 2"
proof -
  let ?ss = "[ascii ''Dogs bark.'', ascii ''Cats purr.'', ascii ''Birds sing.'']"
  let ?t = "ascii ''Dogs bark. Cats purr. Birds sing.''"
  let ?n = "nat (if (- 1 :: int) < 0 then int (length ?ss) + - 1 else min (- 1) (int (length ?ss)))"
  have ne: "?ss \<noteq> []" by simp
  have n: "?n = 2" by simp
  have "\<exists>r. centroid_extractive_summary stub_libs ?t (- 1) = Inr r \<and> length (indices r) = ?n \<and>
            length (scores r) = ?n \<and> length (selected_sentences r) = ?n \<and>
            (?n = 0 \<longrightarrow> r = empty_result)"
    using demo_three ne stub_libs_ok(1) by (rule centroid_lengths)
  then obtain rc where rc: "centroid_extractive_summary stub_libs ?t (- 1) = Inr rc"
    and lc: "length (indices rc) = ?n" "length (scores rc) = ?n" "length (selected_sentences rc) = ?n"
    by (elim exE conjE)
  have "\<exists>r. textrank_extractive_summary stub_libs ?t (- 1) = Inr r \<and> length (indices r) = ?n \<and>
            length (scores r) = ?n \<and> length (selected_sentences r) = ?n \<and>
            (?n = 0 \<longrightarrow> r = empty_result)"
    using demo_three ne stub_libs_ok(2) by (rule textrank_lengths)
  then obtain rt where rt: "textrank_extractive_summary stub_libs ?t (- 1) = Inr rt"
    and lt: "length (indices rt) = ?n" "length (scores rt) = ?n" "length (selected_sentences rt) = ?n"
    by (elim exE conjE)
  show ?thesis
    unfolding rc rt using lc lt unfolding n by simp
qed

lemma nths_as_filter:
  "nths xs A = map (\<lambda>i. xs ! i) (filter (\<lambda>i. i \<in> A) [0..<length xs])"
proof -
  have z: "zip xs [0..<length xs] = map (\<lambda>i. (xs ! i, i)) [0..<length xs]"
    by (rule nth_equalityI) simp_all
  show ?thesis
    unfolding nths_def z by (simp add: filter_map comp_def)
qed

lemma nths_sorted_indices:
  assumes "sorted idx" and "distinct idx" and "set idx \<subseteq> {0..<length xs}"
  shows "nths xs (set idx) = map (\<lambda>i. xs ! i) idx"
proof -
  have "filter (\<lambda>i. i \<in> set idx) [0..<length xs] = idx"
  proof (rule sorted_distinct_set_unique)
    show "sorted (filter (\<lambda>i. i \<in> set idx) [0..<length xs])" by (simp add: sorted_wrt_filter)
    show "distinct (filter (\<lambda>i. i \<in> set idx) [0..<length xs])" by simp
    show "sorted idx" "distinct idx" by fact+
    show "set (filter (\<lambda>i. i \<in> set idx) [0..<length xs]) = set idx"
      using assms(3) by auto
  qed
  then show ?thesis by (simp add: nths_as_filter)
qed

lemma top_of_sorted:
  fixes ranked :: "nat list" and g :: "nat \<Rightarrow> real"
  assumes "sorted (map g ranked)" and "i \<in> set (take m ranked)"
    and "j \<in> set ranked" and "j \<notin> set (take m ranked)"
  shows "g i \<le> g j"
proof -
  have "j \<in> set (drop m ranked)"
    using assms(3,4) set_append[of "take m ranked" "drop m ranked"] by auto
  moreover have "sorted (map g (take m ranked) @ map g (drop m ranked))"
    using assms(1) by (simp flip: map_append)
  ultimately show ?thesis
    using assms(2) by (auto simp: sorted_append)
qed

lemma select_sentences_order:
  fixes f :: "real list \<Rightarrow> nat list" and ss :: "pystr list" and sc :: "real list" and k :: int
  assumes len: "length sc = length ss"
    and arg: "is_argsort (map uminus sc) (f (map uminus sc))"
  shows "\<exists>r. select_sentences f ss sc k = Inr r
           \<and> sorted_wrt (<) (indices r)
           \<and> set (indices r) \<subseteq> {0..<length ss}
           \<and> selected_sentences r = map (\<lambda>i. ss ! i) (indices r)
           \<and> selected_sentences r = nths ss (set (indices r))
           \<and> ExtractiveSummaryResult.summary r = py_join [32] (selected_sentences r)
           \<and> scores r = map (\<lambda>i. sc ! i) (indices r)
           \<and> (\<forall>i\<in>set (indices r). \<forall>j<length ss. j \<notin> set (indices r) \<longrightarrow> sc ! j \<le> sc ! i)
           \<and> indices r = sort (py_slice (f (map uminus sc)) 0 (min k (int (length ss))))
           \<and> length (indices r) = nat (if k < 0 then int (length ss) + k else min k (int (length ss)))"
proof -
  let ?ranked = "f (map uminus sc)"
  let ?sel = "sort (py_slice ?ranked 0 (min k (int (length ss))))"
  let ?m = "nat (if min k (int (length ss)) < 0 then min k (int (length ss)) + int (length ?ranked)
                   else min k (int (length ss)))"
  have r: "select_sentences f ss sc k =
           Inr \<lparr>ExtractiveSummaryResult.summary = py_join [32] (map (\<lambda>i. ss ! i) ?sel),
                selected_sentences = map (\<lambda>i. ss ! i) ?sel,
                indices = ?sel,
                scores = map (\<lambda>i. sc ! i) ?sel\<rparr>"
    using len arg by (rule select_sentences_ok(1))
  have sub: "set ?sel \<subseteq> {0..<length ss}"
    using len arg by (rule select_sentences_ok(2))
  have dist: "distinct ?sel"
    using len arg by (rule select_sentences_ok(3))
  have srt: "sorted ?sel" by simp
  have strict: "sorted_wrt (<) ?sel"
    using srt dist by (simp add: strict_sorted_iff)
  have nths: "nths ss (set ?sel) = map (\<lambda>i. ss ! i) ?sel"
    using srt dist sub by (rule nths_sorted_indices)
  have sel_set: "set ?sel = set (take ?m ?ranked)"
    by (simp add: py_slice_from_0)
  have top: "sc ! j \<le> sc ! i" if "i \<in> set ?sel" "j < length ss" "j \<notin> set ?sel" for i j
  proof -
    have jr: "j \<in> set ?ranked" using arg that(2) len by (simp add: is_argsort_def)
    have il: "i < length sc" using that(1) sub len by auto
    have "map uminus sc ! i \<le> map uminus sc ! j"
      using arg that(1,3) jr unfolding sel_set
      by (intro top_of_sorted[of "\<lambda>i. map uminus sc ! i" ?ranked i ?m j]) (simp_all add: is_argsort_def)
    then show ?thesis using il that(2) len by simp
  qed
  have l: "length ?sel = nat (if k < 0 then int (length ss) + k else min k (int (length ss)))"
    using len arg by (rule select_sentences_ok(5))
  show ?thesis
    unfolding r using strict sub nths top l by simp
qed

text \<open>
  C3. For a non-empty sentence list and \<open>k \<ge> 1\<close>, with the libraries meeting their
  contracts, both summarizers return indices that are strictly ascending and lie in
  \<open>0..N-1\<close>; the selected sentences are the sentences at those indices, which is the
  original list restricted to the index set, in document order; and the summary is the
  selected sentences joined by one space. At least one sentence is selected.
\<close>

theorem selection_in_document_order:
  assumes "sentence_split (sent_tokenize L) (basic_clean text) = ss" and "ss \<noteq> []" and "1 \<le> k"
    and "centroid_ok L ss" and "textrank_ok L ss"
  shows "\<exists>rc rt. centroid_extractive_summary L text k = Inr rc
           \<and> textrank_extractive_summary L text k = Inr rt
           \<and> (\<forall>r\<in>{rc, rt}.
                sorted_wrt (<) (indices r)
              \<and> set (indices r) \<subseteq> {0..<length ss}
              \<and> indices r \<noteq> []
              \<and> selected_sentences r = map (\<lambda>i. ss ! i) (indices r)
              \<and> selected_sentences r = nths ss (set (indices r))
              \<and> ExtractiveSummaryResult.summary r = py_join [32] (selected_sentences r))"
proof -
  have n: "0 < nat (if k < 0 then int (length ss) + k else min k (int (length ss)))"
    using assms(2,3) by (cases ss) auto
  have cs: "length (centroid_scores L ss) = length ss"
    "is_argsort (map uminus (centroid_scores L ss)) (argsort L (map uminus (centroid_scores L ss)))"
    using assms(4) by (simp_all add: centroid_ok_def Let_def)
  from select_sentences_order[where f="argsort L" and sc="centroid_scores L ss" and ss=ss and k=k, OF cs]
  obtain rc where rc: "select_sentences (argsort L) ss (centroid_scores L ss) k = Inr rc"
    and qc: "sorted_wrt (<) (indices rc)" "set (indices rc) \<subseteq> {0..<length ss}"
      "selected_sentences rc = map (\<lambda>i. ss ! i) (indices rc)"
      "selected_sentences rc = nths ss (set (indices rc))"
      "ExtractiveSummaryResult.summary rc = py_join [32] (selected_sentences rc)"
    and lc: "length (indices rc) = nat (if k < 0 then int (length ss) + k else min k (int (length ss)))"
    by (elim exE conjE)
  from assms(5) obtain st where st: "textrank_scores L ss = Inr st" "length st = length ss"
    "is_argsort (map uminus st) (argsort L (map uminus st))"
    by (auto simp: textrank_ok_def split: sum.splits)
  from select_sentences_order[where f="argsort L" and sc=st and ss=ss and k=k, OF st(2,3)]
  obtain rt where rt: "select_sentences (argsort L) ss st k = Inr rt"
    and qt: "sorted_wrt (<) (indices rt)" "set (indices rt) \<subseteq> {0..<length ss}"
      "selected_sentences rt = map (\<lambda>i. ss ! i) (indices rt)"
      "selected_sentences rt = nths ss (set (indices rt))"
      "ExtractiveSummaryResult.summary rt = py_join [32] (selected_sentences rt)"
    and lt: "length (indices rt) = nat (if k < 0 then int (length ss) + k else min k (int (length ss)))"
    by (elim exE conjE)
  have "indices rc \<noteq> []" "indices rt \<noteq> []"
    using n lc lt by auto
  with qc qt have "\<forall>r\<in>{rc, rt}.
                sorted_wrt (<) (indices r)
              \<and> set (indices r) \<subseteq> {0..<length ss}
              \<and> indices r \<noteq> []
              \<and> selected_sentences r = map (\<lambda>i. ss ! i) (indices r)
              \<and> selected_sentences r = nths ss (set (indices r))
              \<and> ExtractiveSummaryResult.summary r = py_join [32] (selected_sentences r)"
    by simp
  moreover have "centroid_extractive_summary L text k = Inr rc"
    using centroid_result[OF assms(1,2)] rc by simp
  moreover have "textrank_extractive_summary L text k = Inr rt"
    using textrank_result[OF assms(1,2) st(1)] rt by simp
  ultimately show ?thesis by blast
qed

theorem selection_in_document_order_witness:
  "sentence_split (sent_tokenize stub_libs) (basic_clean (ascii ''Dogs bark. Cats purr. Birds sing.'')) =
     [ascii ''Dogs bark.'', ascii ''Cats purr.'', ascii ''Birds sing.'']
   \<and> [ascii ''Dogs bark.'', ascii ''Cats purr.'', ascii ''Birds sing.''] \<noteq> []
   \<and> (1::int) \<le> 2
   \<and> centroid_ok stub_libs [ascii ''Dogs bark.'', ascii ''Cats purr.'', ascii ''Birds sing.'']
   \<and> textrank_ok stub_libs [ascii ''Dogs bark.'', ascii ''Cats purr.'', ascii ''Birds sing.'']
   \<and> (\<exists>rc rt. centroid_extractive_summary stub_libs (ascii ''Dogs bark. Cats purr. Birds sing.'') 2 = Inr rc
          \<and> textrank_extractive_summary stub_libs (ascii ''Dogs bark. Cats purr. Birds sing.'') 2 = Inr rt
          \<and> sorted_wrt (<) (indices rc) \<and> sorted_wrt (<) (indices rt)
          \<and> selected_sentences rc =
               nths [ascii ''Dogs bark.'', ascii ''Cats purr.'', ascii ''Birds sing.''] (set (indices rc))
          \<and> selected_sentences rt =
               nths [ascii ''Dogs bark.'', ascii ''Cats purr.'', ascii ''Birds sing.''] (set (indices rt))
          \<and> ExtractiveSummaryResult.summary rc = py_join [32] (selected_sentences rc)
          \<and> ExtractiveSummaryResult.summary rt = py_join [32] (selected_sentences rt))"
proof -
  let ?ss = "[ascii ''Dogs bark.'', ascii ''Cats purr.'', ascii ''Birds sing.'']"
  let ?t = "ascii ''Dogs bark. Cats purr. Birds sing.''"
  have ne: "?ss \<noteq> []" by simp
  have k: "(1::int) \<le> 2" by simp
  from selection_in_document_order[OF demo_three ne k stub_libs_ok]
  obtain rc rt where rc: "centroid_extractive_summary stub_libs ?t 2 = Inr rc"
    and rt: "textrank_extractive_summary stub_libs ?t 2 = Inr rt"
    and q: "\<forall>r\<in>{rc, rt}.
                sorted_wrt (<) (indices r)
              \<and> set (indices r) \<subseteq> {0..<length ?ss}
              \<and> indices r \<noteq> []
              \<and> selected_sentences r = map (\<lambda>i. ?ss ! i) (indices r)
              \<and> selected_sentences r = nths ?ss (set (indices r))
              \<and> ExtractiveSummaryResult.summary r = py_join [32] (selected_sentences r)"
    by (elim exE conjE)
  from q have "sorted_wrt (<) (indices rc)" "sorted_wrt (<) (indices rt)"
    "selected_sentences rc = nths ?ss (set (indices rc))"
    "selected_sentences rt = nths ?ss (set (indices rt))"
    "ExtractiveSummaryResult.summary rc = py_join [32] (selected_sentences rc)"
    "ExtractiveSummaryResult.summary rt = py_join [32] (selected_sentences rt)"
    by blast+
  with rc rt have "\<exists>rc rt. centroid_extractive_summary stub_libs ?t 2 = Inr rc
          \<and> textrank_extractive_summary stub_libs ?t 2 = Inr rt
          \<and> sorted_wrt (<) (indices rc) \<and> sorted_wrt (<) (indices rt)
          \<and> selected_sentences rc = nths ?ss (set (indices rc))
          \<and> selected_sentences rt = nths ?ss (set (indices rt))
          \<and> ExtractiveSummaryResult.summary rc = py_join [32] (selected_sentences rc)
          \<and> ExtractiveSummaryResult.summary rt = py_join [32] (selected_sentences rt)"
    by blast
  then show ?thesis
    using demo_three ne k stub_libs_ok[of ?ss] by (intro conjI)
qed

section \<open>The similarity matrix\<close>

lemma dot_commute: "dot u v = dot v u"
proof (induction u arbitrary: v)
  case Nil
  show ?case by (simp add: dot_def)
next
  case (Cons a u)
  then show ?case by (cases v) (simp_all add: dot_def)
qed









text \<open>A rule to evaluate \<open>f32\<close>: in the binade of exponent \<open>e\<close>, a number within half a
  unit in the last place of the \<open>n\<close>-th multiple of that unit rounds to it.\<close>

lemma round_even_near:
  assumes "of_int n - 1 / 2 < x" and "x < of_int n + 1 / 2"
  shows "round_even x = n"
proof (cases "of_int n \<le> x")
  case True
  then have f: "\<lfloor>x\<rfloor> = n" using assms by (intro floor_unique) auto
  show ?thesis using assms True by (simp add: round_even_def f Let_def)
next
  case False
  then have f: "\<lfloor>x\<rfloor> = n - 1" using assms by (intro floor_unique) auto
  show ?thesis using assms False by (auto simp: round_even_def f Let_def)
qed

lemma pow2_powr: "pow2 e = 2 powr of_int e"
  by (simp add: pow2_def powr_int)

lemma f32_eq:
  assumes "- 126 \<le> e" and "pow2 e \<le> \<bar>x\<bar>" and "\<bar>x\<bar> < pow2 (e + 1)"
    and "of_int n - 1 / 2 < x / pow2 (e - 23)" and "x / pow2 (e - 23) < of_int n + 1 / 2"
  shows "f32 x = of_int n * pow2 (e - 23)"
proof -
  have pos: "0 < \<bar>x\<bar>" using assms(2) by (smt (verit) pow2_powr powr_gt_zero)
  have "of_int e \<le> log 2 \<bar>x\<bar>" using assms(2) pos by (simp add: le_log_iff pow2_powr)
  moreover have "log 2 \<bar>x\<bar> < of_int e + 1" using assms(3) pos by (simp add: log_less_iff pow2_powr)
  ultimately have "\<lfloor>log 2 \<bar>x\<bar>\<rfloor> = e" by (intro floor_unique) auto
  then have "max \<lfloor>log 2 \<bar>x\<bar>\<rfloor> (- 126) = e" using assms(1) by simp
  then show ?thesis
    using pos round_even_near[OF assms(4,5)] by (simp add: f32_def Let_def)
qed









lemma f32_aa: "f32 (11173891 / 2 ^ 24 * (11173891 / 2 ^ 24)) = 14883976 / 2 ^ 25"
  using f32_eq[of "- 2" "11173891 / 2 ^ 24 * (11173891 / 2 ^ 24)" 14883976] by (simp add: pow2_def)

lemma f32_bb: "f32 (12514758 / 2 ^ 24 * (12514758 / 2 ^ 24)) = 9335230 / 2 ^ 24"
  using f32_eq[of "- 1" "12514758 / 2 ^ 24 * (12514758 / 2 ^ 24)" 9335230] by (simp add: pow2_def)


















text \<open>A BLAS kernel may fuse a multiplication with the addition that follows it, so that
  the product is not rounded. On the two equal rows above both fused orders round to the
  same number.\<close>

lemma twin_dot_fused:
  "f32 (11173891 / 2 ^ 24 * (11173891 / 2 ^ 24) + f32 (12514758 / 2 ^ 24 * (12514758 / 2 ^ 24)))
     = 1 + 1 / 2 ^ 23"
  "f32 (f32 (11173891 / 2 ^ 24 * (11173891 / 2 ^ 24)) + 12514758 / 2 ^ 24 * (12514758 / 2 ^ 24))
     = 1 + 1 / 2 ^ 23"
proof -
  show "f32 (11173891 / 2 ^ 24 * (11173891 / 2 ^ 24) + f32 (12514758 / 2 ^ 24 * (12514758 / 2 ^ 24)))
     = 1 + 1 / 2 ^ 23"
    unfolding f32_bb
    using f32_eq[of 0 "11173891 / 2 ^ 24 * (11173891 / 2 ^ 24) + 9335230 / 2 ^ 24" 8388609]
    by (simp add: pow2_def)
  show "f32 (f32 (11173891 / 2 ^ 24 * (11173891 / 2 ^ 24)) + 12514758 / 2 ^ 24 * (12514758 / 2 ^ 24))
     = 1 + 1 / 2 ^ 23"
    unfolding f32_aa
    using f32_eq[of 0 "14883976 / 2 ^ 25 + 12514758 / 2 ^ 24 * (12514758 / 2 ^ 24)" 8388609]
    by (simp add: pow2_def)
qed




end
